theory Spec2Isabelle
  imports Main
begin

section \<open>Python text primitives used by the mapping service\<close>

text \<open>
  Text is a list of characters. Isabelle's \<open>char\<close> has 256 values, so the model covers
  texts whose code points are below 256; \<open>length\<close> is Python's \<open>len\<close> on such a text.
\<close>

definition newline :: char where
  "newline = CHR 0x0A"

text \<open>
  The characters \<open>str.strip()\<close> removes when called without an argument: Python's
  whitespace code points below 256 (tab, line feed, vertical tab, form feed, carriage
  return, the four separators 0x1C..0x1F, space, NEL and the no-break space).
\<close>

definition is_space :: "char \<Rightarrow> bool" where
  "is_space c = (c \<in> set [CHR 0x09, CHR 0x0A, CHR 0x0B, CHR 0x0C, CHR 0x0D,
                           CHR 0x1C, CHR 0x1D, CHR 0x1E, CHR 0x1F, CHR 0x20,
                           CHR 0x85, CHR 0xA0])"

definition lstrip :: "string \<Rightarrow> string" where
  "lstrip s = dropWhile is_space s"

definition rstrip :: "string \<Rightarrow> string" where
  "rstrip s = rev (dropWhile is_space (rev s))"

text \<open>\<open>s.strip()\<close>\<close>

definition strip :: "string \<Rightarrow> string" where
  "strip s = rstrip (lstrip s)"

text \<open>\<open>s.split('\n')\<close>: always at least one piece, the pieces hold no line feed.\<close>

fun split_nl :: "string \<Rightarrow> string list" where
  "split_nl [] = [[]]"
| "split_nl (c # cs) =
     (if c = newline then [] # split_nl cs
      else (case split_nl cs of
              [] \<Rightarrow> [[c]]
            | l # ls \<Rightarrow> (c # l) # ls))"

text \<open>\<open>'\n'.join(lines)\<close>\<close>

fun join_nl :: "string list \<Rightarrow> string" where
  "join_nl [] = []"
| "join_nl [l] = l"
| "join_nl (l # ls) = l @ newline # join_nl ls"

text \<open>The decimal digits of a natural number, as \<open>str(n)\<close> and \<open>%d\<close> print them.\<close>

definition digit_char :: "nat \<Rightarrow> char" where
  "digit_char d = char_of (48 + d)"

fun dec :: "nat \<Rightarrow> string" where
  "dec n = (if n < 10 then [digit_char n] else dec (n div 10) @ [digit_char (n mod 10)])"

declare dec.simps [simp del]

text \<open>\<open>f"{i:03d}"\<close> for \<open>i \<ge> 0\<close>: the decimal digits, padded on the left with zeros to width 3.\<close>

definition fmt03 :: "nat \<Rightarrow> string" where
  "fmt03 i = replicate (3 - length (dec i)) (CHR ''0'') @ dec i"

text \<open>The decimal digits, and the number a string of them denotes (to state what \<open>fmt03\<close> prints).\<close>

definition is_digit :: "char \<Rightarrow> bool" where
  "is_digit c = (c \<in> set ''0123456789'')"

definition digits_value :: "string \<Rightarrow> nat" where
  "digits_value s = foldl (\<lambda>acc c. 10 * acc + (of_char c - 48)) 0 s"

section \<open>Locating an element's Markdown in the whole document\<close>

text \<open>
  The inner loop of \<open>_find_content_lines\<close>: \<open>content_lines\<close> from position \<open>j\<close> on are
  compared with \<open>markdown_lines[i + j]\<close>, both stripped; the loop breaks with
  \<open>match = False\<close> at the first line that is out of range or differs.
  The only caller passes \<open>start_from \<ge> 0\<close>, so every index is non-negative; Python's
  wrap-around for negative indices is outside this model.
\<close>

fun lines_match :: "string list \<Rightarrow> string list \<Rightarrow> int \<Rightarrow> int \<Rightarrow> bool" where
  "lines_match markdown_lines [] i j = True"
| "lines_match markdown_lines (content_line # rest) i j =
     (if i + j \<ge> int (length markdown_lines)
         \<or> strip (markdown_lines ! nat (i + j)) \<noteq> strip content_line
      then False
      else lines_match markdown_lines rest i (j + 1))"

text \<open>
  \<open>_find_content_lines\<close>: the first \<open>i\<close> in \<open>range(start_from, len(markdown_lines))\<close>
  at which the inner loop ends with \<open>match\<close> still true gives
  \<open>(i, i + len(content_lines) - 1)\<close>; when the range is exhausted, \<open>(-1, -1)\<close>.
\<close>

definition find_content_lines :: "string list \<Rightarrow> string \<Rightarrow> int \<Rightarrow> int \<times> int" where
  "find_content_lines markdown_lines content start_from =
     (let content_lines = split_nl content in
      case List.find (\<lambda>i. lines_match markdown_lines content_lines i 0)
                     [start_from .. int (length markdown_lines) - 1] of
        Some i \<Rightarrow> (i, i + int (length content_lines) - 1)
      | None \<Rightarrow> (-1, -1))"

text \<open>
  The spec's wording of a match: the lines of the document beginning at \<open>i\<close>, compared
  line by line with surrounding whitespace trimmed, equal every line of the fragment in
  order.
\<close>

definition spec_match_at :: "string list \<Rightarrow> string list \<Rightarrow> nat \<Rightarrow> bool" where
  "spec_match_at markdown_lines content_lines i =
     (\<forall>j < length content_lines.
        i + j < length markdown_lines
        \<and> strip (markdown_lines ! (i + j)) = strip (content_lines ! j))"

section \<open>The data model\<close>

text \<open>
  A node of the parsed tree, as far as the service looks at it: a \<open>Tag\<close> has a name,
  attributes (a dict, in insertion order) and children; every other child of the root
  (text, comment, doctype) is a \<open>NavigableString\<close>, which fails \<open>isinstance(_, Tag)\<close>.
\<close>

datatype node =
  is_Tag: Tag (tag_name: string) (attrs: "(string \<times> string) list") (contents: "node list")
| NavigableString string

text \<open>A raised \<open>Exception\<close>; \<open>message e\<close> is \<open>str(e)\<close>.\<close>

datatype exn = Exception (message: string)

text \<open>The dataclass \<open>HtmlToMarkdownMapping\<close>.\<close>

record HtmlToMarkdownMapping =
  html_element_id :: string
  html_content :: string
  html_tag :: string
  markdown_line_start :: int
  markdown_line_end :: int
  markdown_content :: string

text \<open>The values of the \<open>Dict[str, Any]\<close> results; a dict is a list of key-value pairs.\<close>

datatype pyval =
  PyStr string
| PyInt int
| PyList "pyval list"
| PyDict "(string \<times> pyval) list"

type_synonym pydict = "(string \<times> pyval) list"

text \<open>
  The libraries the service calls are parameters of the model, each returning either the
  exception it raises or its value:
  \<^item> \<open>BeautifulSoup\<close>: \<open>BeautifulSoup(html_text, 'html.parser')\<close>, giving \<open>soup.children\<close>;
  \<^item> \<open>str_of_tag\<close>: \<open>str(element)\<close> for a child of the root;
  \<^item> \<open>str_of_soup\<close>: \<open>str(soup)\<close> for the whole tree;
  \<^item> \<open>md\<close>: \<open>markdownify\<close> with the fixed options
    \<open>heading_style="ATX", bullets="-", strip=['script', 'style']\<close>;
  \<^item> \<open>uuid4\<close>: the 128-bit integer of the \<open>k\<close>-th UUID that \<open>uuid.uuid4()\<close> hands out.
\<close>

record env =
  BeautifulSoup :: "string \<Rightarrow> exn + node list"
  str_of_tag :: "node \<Rightarrow> exn + string"
  str_of_soup :: "node list \<Rightarrow> exn + string"
  md :: "string \<Rightarrow> exn + string"
  uuid4 :: "nat \<Rightarrow> nat"

text \<open>
  \<open>str(uuid)\<close>: the 32 lower-case hexadecimal digits of the UUID's integer (below
  \<open>2 ^ 128\<close>), grouped 8-4-4-4-12 with hyphens.
\<close>

definition hex_char :: "nat \<Rightarrow> char" where
  "hex_char d = ''0123456789abcdef'' ! d"

fun hex_digits :: "nat \<Rightarrow> nat \<Rightarrow> string" where
  "hex_digits 0 n = []"
| "hex_digits (Suc k) n = hex_digits k (n div 16) @ [hex_char (n mod 16)]"

definition uuid_str :: "nat \<Rightarrow> string" where
  "uuid_str n =
     (let hex = hex_digits 32 n
      in take 8 hex @ ''-'' @ take 4 (drop 8 hex) @ ''-'' @ take 4 (drop 12 hex)
         @ ''-'' @ take 4 (drop 16 hex) @ ''-'' @ drop 20 hex)"

text \<open>
  The state a call can change: the service's \<open>self.mappings\<close>, and how many UUIDs have
  been drawn so far (the next draw is \<open>uuid4 E (uuid_calls s)\<close>).
\<close>

record state =
  mappings :: "HtmlToMarkdownMapping list"
  uuid_calls :: nat

text \<open>\<open>MappingService()\<close>: \<open>self.mappings = []\<close>.\<close>

definition init :: "nat \<Rightarrow> state" where
  "init k = \<lparr>mappings = [], uuid_calls = k\<rparr>"

section \<open>The mapping service\<close>

text \<open>\<open>element[key] = value\<close>: an existing key keeps its place, a new one goes last.\<close>

fun set_attr :: "string \<Rightarrow> string \<Rightarrow> (string \<times> string) list \<Rightarrow> (string \<times> string) list" where
  "set_attr k v [] = [(k, v)]"
| "set_attr k v ((k', v') # rest) =
     (if k' = k then (k, v) # rest else (k', v') # set_attr k v rest)"

text \<open>
  \<open>_add_unique_ids\<close>: every \<open>Tag\<close> among the children of the root gets a fresh UUID as
  its \<open>data-mapping-id\<close>; the other children are left alone. Returns the annotated
  children and the number of UUIDs drawn so far.
\<close>

fun add_unique_ids :: "env \<Rightarrow> node list \<Rightarrow> nat \<Rightarrow> node list \<times> nat" where
  "add_unique_ids E [] k = ([], k)"
| "add_unique_ids E (Tag name as cs # rest) k =
     (case add_unique_ids E rest (Suc k) of
        (rest', k') \<Rightarrow>
          (Tag name (set_attr ''data-mapping-id'' (uuid_str (uuid4 E k)) as) cs # rest', k'))"
| "add_unique_ids E (NavigableString t # rest) k =
     (case add_unique_ids E rest k of
        (rest', k') \<Rightarrow> (NavigableString t # rest', k'))"

text \<open>
  The body of the loop of \<open>_create_mapping\<close> for one child of the root, on the loop's
  variables \<open>(current_line, self.mappings)\<close>. \<open>element.get('data-mapping-id')\<close> is
  \<open>None\<close> or a string, and the empty string is falsy. The source evaluates
  \<open>str(element)\<close> twice, for the rendering and for \<open>html_content\<close>; the element is not
  changed in between, so the model takes the one value for both.
\<close>

definition map_element ::
  "env \<Rightarrow> string list \<Rightarrow> node \<Rightarrow> int \<times> HtmlToMarkdownMapping list
     \<Rightarrow> exn + (int \<times> HtmlToMarkdownMapping list)" where
  "map_element E markdown_lines element st =
     (case st of (current_line, ms) \<Rightarrow>
      (case element of
         NavigableString _ \<Rightarrow> Inr (current_line, ms)
       | Tag name as _ \<Rightarrow>
          (case map_of as ''data-mapping-id'' of
             None \<Rightarrow> Inr (current_line, ms)
           | Some ident \<Rightarrow>
              if ident = [] then Inr (current_line, ms)
              else
               (case str_of_tag E element of
                  Inl e \<Rightarrow> Inl e
                | Inr html \<Rightarrow>
                   (case md E html of
                      Inl e \<Rightarrow> Inl e
                    | Inr m \<Rightarrow>
                       (let element_markdown = strip m in
                        if element_markdown = [] then Inr (current_line, ms)
                        else
                         (case find_content_lines markdown_lines element_markdown current_line of
                            (line_start, line_end) \<Rightarrow>
                              if line_start \<noteq> -1
                              then Inr (line_end,
                                        ms @ [\<lparr>html_element_id = ident,
                                               html_content = html,
                                               html_tag = name,
                                               markdown_line_start = line_start + 1,
                                               markdown_line_end = line_end + 1,
                                               markdown_content = element_markdown\<rparr>])
                              else Inr (current_line, ms))))))))"

text \<open>
  The loop over \<open>soup.children\<close>. An exception leaves the loop at once; the records
  appended so far stay in \<open>self.mappings\<close>.
\<close>

fun create_mapping_loop ::
  "env \<Rightarrow> string list \<Rightarrow> node list \<Rightarrow> int \<times> HtmlToMarkdownMapping list
     \<Rightarrow> exn option \<times> HtmlToMarkdownMapping list" where
  "create_mapping_loop E markdown_lines [] st = (None, snd st)"
| "create_mapping_loop E markdown_lines (element # rest) st =
     (case map_element E markdown_lines element st of
        Inl e \<Rightarrow> (Some e, snd st)
      | Inr st' \<Rightarrow> create_mapping_loop E markdown_lines rest st')"

text \<open>\<open>_create_mapping\<close>: \<open>self.mappings = []\<close>, \<open>current_line = 0\<close>, then the loop.\<close>

definition create_mapping :: "env \<Rightarrow> node list \<Rightarrow> string \<Rightarrow> state \<Rightarrow> exn option \<times> state" where
  "create_mapping E soup markdown_text s =
     (case create_mapping_loop E (split_nl markdown_text) soup (0, []) of
        (err, ms) \<Rightarrow> (err, s\<lparr>mappings := ms\<rparr>))"

text \<open>\<open>_add_line_numbers\<close>\<close>

definition numbered_line :: "nat \<times> string \<Rightarrow> string" where
  "numbered_line p = (case p of (i, line) \<Rightarrow> (''['' @ fmt03 i @ '']'') @ '' '' @ line)"

definition add_line_numbers :: "string \<Rightarrow> string" where
  "add_line_numbers markdown_text =
     join_nl (map numbered_line (List.enumerate 1 (split_nl markdown_text)))"

text \<open>\<open>_mapping_to_dict\<close>\<close>

definition mapping_to_dict :: "HtmlToMarkdownMapping \<Rightarrow> pydict" where
  "mapping_to_dict mapping =
     [(''html_element_id'', PyStr (html_element_id mapping)),
      (''html_tag'', PyStr (html_tag mapping)),
      (''html_content'', PyStr (html_content mapping)),
      (''markdown_line_start'', PyInt (markdown_line_start mapping)),
      (''markdown_line_end'', PyInt (markdown_line_end mapping)),
      (''markdown_content'', PyStr (markdown_content mapping))]"

text \<open>The dict the \<open>except Exception as e\<close> branch of \<open>convert_with_mapping\<close> returns.\<close>

definition error_result :: "string \<Rightarrow> exn \<Rightarrow> pydict" where
  "error_result html_text e =
     [(''original_html_length'', PyInt (int (length html_text))),
      (''markdown_result'', PyStr []),
      (''mappings'', PyList []),
      (''status'', PyStr ''error''),
      (''error'', PyStr (message e))]"

text \<open>
  \<open>convert_with_mapping\<close>: each call that can raise is a case distinction, and every
  \<open>Inl\<close> branch is the \<open>except\<close> branch with the state as it is at that point.
\<close>

definition convert_with_mapping :: "env \<Rightarrow> string \<Rightarrow> state \<Rightarrow> pydict \<times> state" where
  "convert_with_mapping E html_text s =
     (case BeautifulSoup E html_text of
        Inl e \<Rightarrow> (error_result html_text e, s)
      | Inr parsed \<Rightarrow>
         (case add_unique_ids E parsed (uuid_calls s) of
            (soup, calls) \<Rightarrow>
              (let s1 = s\<lparr>uuid_calls := calls\<rparr> in
               case str_of_soup E soup of
                 Inl e \<Rightarrow> (error_result html_text e, s1)
               | Inr html \<Rightarrow>
                  (case md E html of
                     Inl e \<Rightarrow> (error_result html_text e, s1)
                   | Inr markdown_result \<Rightarrow>
                      (case create_mapping E soup markdown_result s1 of
                         (Some e, s2) \<Rightarrow> (error_result html_text e, s2)
                       | (None, s2) \<Rightarrow>
                          (let numbered_markdown = add_line_numbers markdown_result in
                           case str_of_soup E soup of
                             Inl e \<Rightarrow> (error_result html_text e, s2)
                           | Inr html_with_ids \<Rightarrow>
                              ([(''original_html_length'', PyInt (int (length html_text))),
                                (''markdown_result'', PyStr (strip numbered_markdown)),
                                (''html_with_ids'', PyStr html_with_ids),
                                (''mappings'',
                                   PyList (map (\<lambda>m. PyDict (mapping_to_dict m)) (mappings s2))),
                                (''status'', PyStr ''converted'')],
                               s2)))))))"

text \<open>\<open>find_html_by_line\<close>: the first stored record whose range holds the line, else \<open>{}\<close>.\<close>

fun find_in_mappings :: "int \<Rightarrow> HtmlToMarkdownMapping list \<Rightarrow> pydict" where
  "find_in_mappings line_number [] = []"
| "find_in_mappings line_number (mapping # rest) =
     (if markdown_line_start mapping \<le> line_number \<and> line_number \<le> markdown_line_end mapping
      then mapping_to_dict mapping
      else find_in_mappings line_number rest)"

definition find_html_by_line :: "int \<Rightarrow> state \<Rightarrow> pydict" where
  "find_html_by_line line_number s = find_in_mappings line_number (mappings s)"

text \<open>The states a service can be in: freshly constructed, or after any conversion.\<close>

inductive reachable :: "env \<Rightarrow> state \<Rightarrow> bool" for E :: env where
  fresh: "reachable E (init k)"
| converted: "reachable E s \<Longrightarrow> reachable E (snd (convert_with_mapping E html_text s))"

text \<open>
  A call of \<open>convert_with_mapping\<close> raises inside its \<open>try\<close> block: before the mapping
  phase (in the parser, or in the serialisation or the rendering of the whole tree), or
  in the loop of \<open>_create_mapping\<close>.
\<close>

inductive raises_before_mapping :: "env \<Rightarrow> string \<Rightarrow> state \<Rightarrow> exn \<Rightarrow> bool"
  for E :: env and html_text :: string and s :: state where
  parsing: "BeautifulSoup E html_text = Inl e \<Longrightarrow> raises_before_mapping E html_text s e"
| serialising:
    "BeautifulSoup E html_text = Inr parsed \<Longrightarrow>
     str_of_soup E (fst (add_unique_ids E parsed (uuid_calls s))) = Inl e \<Longrightarrow>
     raises_before_mapping E html_text s e"
| rendering:
    "BeautifulSoup E html_text = Inr parsed \<Longrightarrow>
     str_of_soup E (fst (add_unique_ids E parsed (uuid_calls s))) = Inr html \<Longrightarrow>
     md E html = Inl e \<Longrightarrow>
     raises_before_mapping E html_text s e"

inductive raises :: "env \<Rightarrow> string \<Rightarrow> state \<Rightarrow> exn \<Rightarrow> bool"
  for E :: env and html_text :: string and s :: state where
  early: "raises_before_mapping E html_text s e \<Longrightarrow> raises E html_text s e"
| mapping:
    "BeautifulSoup E html_text = Inr parsed \<Longrightarrow>
     str_of_soup E (fst (add_unique_ids E parsed (uuid_calls s))) = Inr html \<Longrightarrow>
     md E html = Inr raw \<Longrightarrow>
     fst (create_mapping_loop E (split_nl raw)
            (fst (add_unique_ids E parsed (uuid_calls s))) (0, [])) = Some e \<Longrightarrow>
     raises E html_text s e"

section \<open>Properties of the stored records\<close>

text \<open>
  A record lies within the document \<open>markdown_lines\<close>: its 1-based range is not empty,
  ends no later than the last line, and has as many lines as its \<open>markdown_content\<close>.
\<close>

definition record_ok :: "string list \<Rightarrow> HtmlToMarkdownMapping \<Rightarrow> bool" where
  "record_ok markdown_lines r \<longleftrightarrow>
     1 \<le> markdown_line_start r
     \<and> markdown_line_start r \<le> markdown_line_end r
     \<and> markdown_line_end r \<le> int (length markdown_lines)
     \<and> markdown_line_end r - markdown_line_start r + 1
         = int (length (split_nl (markdown_content r)))"

text \<open>Every later record starts no earlier than the last line of every earlier one.\<close>

definition ranges_ordered :: "HtmlToMarkdownMapping list \<Rightarrow> bool" where
  "ranges_ordered ms = sorted_wrt (\<lambda>r r'. markdown_line_end r \<le> markdown_line_start r') ms"

text \<open>
  What the loop of \<open>_create_mapping\<close> keeps true of \<open>(current_line, self.mappings)\<close>:
  the cursor is a 0-based index at or after the last line of every record.
\<close>

definition loop_inv :: "string list \<Rightarrow> int \<times> HtmlToMarkdownMapping list \<Rightarrow> bool" where
  "loop_inv markdown_lines st \<longleftrightarrow>
     0 \<le> fst st
     \<and> (\<forall>r \<in> set (snd st). record_ok markdown_lines r \<and> markdown_line_end r \<le> fst st + 1)
     \<and> ranges_ordered (snd st)"

section \<open>A small concrete environment\<close>

text \<open>
  A serializer, a renderer for \<open>h1\<close>, \<open>p\<close> and \<open>b\<close>, and the parse trees of two
  documents, to run the service on concrete inputs.
\<close>

fun demo_str :: "node \<Rightarrow> string" where
  "demo_str (Tag name as cs) =
     ''<'' @ name
     @ concat (map (\<lambda>kv. '' '' @ fst kv @ ''='' @ [CHR 0x22] @ snd kv @ [CHR 0x22]) as)
     @ ''>'' @ concat (map demo_str cs) @ ''</'' @ name @ ''>''"
| "demo_str (NavigableString t) = t"

definition demo_tag_text :: "string \<Rightarrow> string" where
  "demo_tag_text t =
     (let nm = takeWhile (\<lambda>c. c \<noteq> CHR '' '') t in
      if nm = ''h1'' then ''# ''
      else if nm = ''b'' \<or> nm = ''/b'' then ''**''
      else if nm = ''/h1'' \<or> nm = ''/p'' then [newline, newline]
      else [])"

fun demo_scan :: "string option \<Rightarrow> string \<Rightarrow> string" where
  "demo_scan st [] = []"
| "demo_scan None (c # cs) =
     (if c = CHR ''<'' then demo_scan (Some []) cs else c # demo_scan None cs)"
| "demo_scan (Some t) (c # cs) =
     (if c = CHR ''>'' then demo_tag_text t @ demo_scan None cs
      else demo_scan (Some (t @ [c])) cs)"

definition demo_parse :: "string \<Rightarrow> exn + node list" where
  "demo_parse html_text =
     (if html_text = ''<p>a</p><p>a</p>''
      then Inr [Tag ''p'' [] [NavigableString ''a''], Tag ''p'' [] [NavigableString ''a'']]
      else if html_text = ''<h1>Title</h1><p>Hello <b>world</b></p>''
      then Inr [Tag ''h1'' [] [NavigableString ''Title''],
                Tag ''p'' [] [NavigableString ''Hello '', Tag ''b'' [] [NavigableString ''world'']]]
      else Inl (Exception ''unsupported document''))"

definition demo_env :: env where
  "demo_env = \<lparr>BeautifulSoup = demo_parse,
               str_of_tag = (\<lambda>n. Inr (demo_str n)),
               str_of_soup = (\<lambda>ns. Inr (concat (map demo_str ns))),
               md = (\<lambda>html. Inr (demo_scan None html)),
               uuid4 = (\<lambda>k. k)\<rparr>"

text \<open>An environment whose parser raises an exception with the given text.\<close>

definition raising_env :: "string \<Rightarrow> env" where
  "raising_env msg = demo_env\<lparr>BeautifulSoup := (\<lambda>html_text. Inl (Exception msg))\<rparr>"

text \<open>Two sample documents, and the state after converting the first in a fresh service.\<close>

definition demo_doc :: string where
  "demo_doc = ''<h1>Title</h1><p>Hello <b>world</b></p>''"

definition twin_doc :: string where
  "twin_doc = ''<p>a</p><p>a</p>''"

definition demo_parsed :: "node list" where
  "demo_parsed = [Tag ''h1'' [] [NavigableString ''Title''],
                  Tag ''p'' [] [NavigableString ''Hello '', Tag ''b'' [] [NavigableString ''world'']]]"

definition demo_soup :: "node list" where
  "demo_soup = fst (add_unique_ids demo_env demo_parsed 0)"

definition demo_html :: string where
  "demo_html = concat (map demo_str demo_soup)"

definition demo_raw :: string where
  "demo_raw = demo_scan None demo_html"

definition demo_state :: state where
  "demo_state = snd (convert_with_mapping demo_env demo_doc (init 0))"

section \<open>Lemmas on the text primitives\<close>

lemma split_nl_nonempty: "split_nl s \<noteq> []"
  by (induction s) (auto split: list.splits)

lemma length_split_nl_pos: "0 < length (split_nl s)"
  using split_nl_nonempty [of s] by simp

lemma length_split_nl: "length (split_nl s) = Suc (length (filter (\<lambda>c. c = newline) s))"
  by (induction s) (auto split: list.splits simp: split_nl_nonempty)

lemma split_nl_no_newline: "l \<in> set (split_nl s) \<Longrightarrow> newline \<notin> set l"
  by (induction s arbitrary: l) (auto split: if_splits list.splits)

lemma split_nl_line: "newline \<notin> set l \<Longrightarrow> split_nl l = [l]"
  by (induction l) auto

lemma split_nl_append_line:
  "newline \<notin> set l \<Longrightarrow> split_nl (l @ newline # s) = l # split_nl s"
  by (induction l) auto

lemma split_join_nl:
  "ls \<noteq> [] \<Longrightarrow> \<forall>l \<in> set ls. newline \<notin> set l \<Longrightarrow> split_nl (join_nl ls) = ls"
proof (induction ls rule: join_nl.induct)
  case 1
  then show ?case by simp
next
  case (2 l)
  then show ?case by (simp add: split_nl_line)
next
  case (3 l v va)
  then show ?case by (simp add: split_nl_append_line)
qed

section \<open>Lemmas on the search\<close>

lemma lines_match_iff:
  "0 \<le> i \<Longrightarrow> 0 \<le> j \<Longrightarrow>
   lines_match ml cl i j \<longleftrightarrow>
     (\<forall>k < length cl. nat (i + j) + k < length ml
        \<and> strip (ml ! (nat (i + j) + k)) = strip (cl ! k))"
proof (induction cl arbitrary: j)
  case Nil
  then show ?case by simp
next
  case (Cons c cl)
  have step: "nat (i + (j + 1)) = Suc (nat (i + j))"
    using Cons.prems by simp
  have ih: "lines_match ml cl i (j + 1) \<longleftrightarrow>
     (\<forall>k < length cl. Suc (nat (i + j)) + k < length ml
        \<and> strip (ml ! (Suc (nat (i + j)) + k)) = strip (cl ! k))"
    using Cons.IH [of "j + 1"] Cons.prems step by simp
  have bound: "i + j \<ge> int (length ml) \<longleftrightarrow> \<not> nat (i + j) < length ml"
    using Cons.prems by auto
  show ?case
  proof
    assume m: "lines_match ml (c # cl) i j"
    then have h0: "nat (i + j) < length ml" "strip (ml ! nat (i + j)) = strip c"
      and rest: "lines_match ml cl i (j + 1)"
      using bound by (auto split: if_splits)
    show "\<forall>k < length (c # cl). nat (i + j) + k < length ml
        \<and> strip (ml ! (nat (i + j) + k)) = strip ((c # cl) ! k)"
    proof (intro allI impI)
      fix k assume "k < length (c # cl)"
      then show "nat (i + j) + k < length ml
        \<and> strip (ml ! (nat (i + j) + k)) = strip ((c # cl) ! k)"
        using h0 rest ih by (cases k) auto
    qed
  next
    assume a: "\<forall>k < length (c # cl). nat (i + j) + k < length ml
        \<and> strip (ml ! (nat (i + j) + k)) = strip ((c # cl) ! k)"
    from a [rule_format, of 0] have h0: "nat (i + j) < length ml"
      "strip (ml ! nat (i + j)) = strip c" by auto
    have "\<forall>k < length cl. Suc (nat (i + j)) + k < length ml
        \<and> strip (ml ! (Suc (nat (i + j)) + k)) = strip (cl ! k)"
    proof (intro allI impI)
      fix k assume "k < length cl"
      then show "Suc (nat (i + j)) + k < length ml
        \<and> strip (ml ! (Suc (nat (i + j)) + k)) = strip (cl ! k)"
        using a [rule_format, of "Suc k"] by simp
    qed
    then have "lines_match ml cl i (j + 1)" using ih by simp
    then show "lines_match ml (c # cl) i j" using h0 bound by simp
  qed
qed

lemma lines_match_spec:
  "0 \<le> i \<Longrightarrow> lines_match ml cl i 0 \<longleftrightarrow> spec_match_at ml cl (nat i)"
  using lines_match_iff [of i 0 ml cl] by (simp add: spec_match_at_def)

lemma find_upto_Some:
  "List.find P [a..b] = Some i \<longleftrightarrow>
     a \<le> i \<and> i \<le> b \<and> P i \<and> (\<forall>k. a \<le> k \<and> k < i \<longrightarrow> \<not> P k)"
proof (induction a b rule: upto.induct)
  case (1 a b)
  show ?case
  proof (cases "a \<le> b")
    case False
    then show ?thesis by auto
  next
    case True
    then have unf: "[a..b] = a # [a + 1..b]" by (rule upto_rec1)
    show ?thesis
    proof (cases "P a")
      case True
      then show ?thesis using unf \<open>a \<le> b\<close> by (auto simp: not_less)
    next
      case False
      have "(\<forall>k. a \<le> k \<and> k < i \<longrightarrow> \<not> P k) \<longleftrightarrow>
            (a < i \<longrightarrow> (\<forall>k. a + 1 \<le> k \<and> k < i \<longrightarrow> \<not> P k))" (is "?L \<longleftrightarrow> ?R")
      proof
        assume ?L then show ?R by auto
      next
        assume r: ?R
        show ?L
        proof (intro allI impI)
          fix k assume k: "a \<le> k \<and> k < i"
          show "\<not> P k"
          proof (cases "k = a")
            case True then show ?thesis using False by simp
          next
            case False
            with k r show ?thesis by auto
          qed
        qed
      qed
      then show ?thesis
        using unf False True "1.IH" [OF True] by (cases "i = a") auto
    qed
  qed
qed

lemma find_upto_None:
  "List.find P [a..b] = None \<longleftrightarrow> (\<forall>k. a \<le> k \<and> k \<le> b \<longrightarrow> \<not> P k)"
  by (auto simp: find_None_iff)

lemma find_content_lines_cases:
  assumes c: "0 \<le> c"
  shows "(find_content_lines ml content c = (-1, -1)
            \<and> (\<forall>i \<ge> nat c. \<not> spec_match_at ml (split_nl content) i))
         \<or> (\<exists>i. find_content_lines ml content c
                    = (int i, int i + int (length (split_nl content)) - 1)
                \<and> nat c \<le> i \<and> spec_match_at ml (split_nl content) i
                \<and> (\<forall>k. nat c \<le> k \<and> k < i \<longrightarrow> \<not> spec_match_at ml (split_nl content) k))"
proof -
  let ?cl = "split_nl content"
  let ?P = "\<lambda>i. lines_match ml ?cl i 0"
  let ?hi = "int (length ml) - 1"
  have cl_pos: "0 < length ?cl" by (rule length_split_nl_pos)
  show ?thesis
  proof (cases "List.find ?P [c..?hi]")
    case None
    then have none: "\<forall>k. c \<le> k \<and> k \<le> ?hi \<longrightarrow> \<not> ?P k"
      by (simp add: find_upto_None)
    have "\<not> spec_match_at ml ?cl i" if "nat c \<le> i" for i
    proof (cases "i < length ml")
      case True
      then have "c \<le> int i \<and> int i \<le> ?hi" using that c by auto
      then have "\<not> ?P (int i)" using none by blast
      then show ?thesis using lines_match_spec [of "int i" ml ?cl] by simp
    next
      case False
      then show ?thesis using cl_pos by (auto simp: spec_match_at_def)
    qed
    moreover have "find_content_lines ml content c = (-1, -1)"
      using None by (simp add: find_content_lines_def)
    ultimately show ?thesis by blast
  next
    case (Some a)
    then have a: "c \<le> a" "a \<le> ?hi" "?P a" "\<forall>k. c \<le> k \<and> k < a \<longrightarrow> \<not> ?P k"
      by (simp_all add: find_upto_Some)
    have a0: "0 \<le> a" using a(1) c by simp
    have m: "spec_match_at ml ?cl (nat a)"
      using a(3) lines_match_spec [OF a0] by simp
    have least: "\<not> spec_match_at ml ?cl k" if "nat c \<le> k \<and> k < nat a" for k
    proof -
      have "c \<le> int k \<and> int k < a" using that c by auto
      then have "\<not> ?P (int k)" using a(4) by blast
      then show ?thesis using lines_match_spec [of "int k" ml ?cl] by simp
    qed
    have "find_content_lines ml content c = (int (nat a), int (nat a) + int (length ?cl) - 1)"
      using Some a0 by (simp add: find_content_lines_def)
    moreover have "nat c \<le> nat a" using a(1) by simp
    ultimately show ?thesis using m least by blast
  qed
qed

lemma spec_match_at_bound:
  "spec_match_at ml (split_nl content) i \<Longrightarrow> i + length (split_nl content) \<le> length ml"
proof -
  assume m: "spec_match_at ml (split_nl content) i"
  let ?n = "length (split_nl content)"
  have "0 < ?n" by (rule length_split_nl_pos)
  then have "?n - 1 < ?n" by simp
  with m have "i + (?n - 1) < length ml" unfolding spec_match_at_def by blast
  then show ?thesis using \<open>0 < ?n\<close> by simp
qed

section \<open>The loop of \<open>_create_mapping\<close>\<close>

lemma map_element_NavigableString [simp]:
  "map_element E ml (NavigableString t) st = Inr st"
  by (simp add: map_element_def split: prod.splits)

lemma map_element_Tag:
  assumes "map_of as ''data-mapping-id'' = Some ident" "ident \<noteq> []"
    and "str_of_tag E (Tag name as cs) = Inr html" "md E html = Inr m"
  shows "map_element E ml (Tag name as cs) (cur, ms) =
     (if strip m = [] then Inr (cur, ms)
      else if fst (find_content_lines ml (strip m) cur) \<noteq> -1
      then Inr (snd (find_content_lines ml (strip m) cur),
                ms @ [\<lparr>html_element_id = ident, html_content = html, html_tag = name,
                       markdown_line_start = fst (find_content_lines ml (strip m) cur) + 1,
                       markdown_line_end = snd (find_content_lines ml (strip m) cur) + 1,
                       markdown_content = strip m\<rparr>])
      else Inr (cur, ms))"
  using assms by (simp add: map_element_def Let_def split: prod.splits)

lemma map_element_result:
  assumes "map_element E ml el (cur, ms) = Inr (cur', ms')"
  shows "(cur' = cur \<and> ms' = ms)
       \<or> (\<exists>name as cs ident html m.
             el = Tag name as cs \<and> map_of as ''data-mapping-id'' = Some ident \<and> ident \<noteq> []
             \<and> str_of_tag E el = Inr html \<and> md E html = Inr m \<and> strip m \<noteq> []
             \<and> fst (find_content_lines ml (strip m) cur) \<noteq> -1
             \<and> cur' = snd (find_content_lines ml (strip m) cur)
             \<and> ms' = ms @ [\<lparr>html_element_id = ident, html_content = html, html_tag = name,
                       markdown_line_start = fst (find_content_lines ml (strip m) cur) + 1,
                       markdown_line_end = snd (find_content_lines ml (strip m) cur) + 1,
                       markdown_content = strip m\<rparr>])"
  using assms
  by (auto simp: map_element_def Let_def
           split: node.splits option.splits sum.splits if_splits prod.splits)

lemma ranges_ordered_snoc:
  "ranges_ordered (ms @ [r]) \<longleftrightarrow>
     ranges_ordered ms \<and> (\<forall>q \<in> set ms. markdown_line_end q \<le> markdown_line_start r)"
  by (auto simp: ranges_ordered_def sorted_wrt_append)

lemma map_element_inv:
  assumes inv: "loop_inv ml st" and step: "map_element E ml el st = Inr st'"
  shows "loop_inv ml st'"
proof -
  obtain cur ms where st: "st = (cur, ms)" by (cases st)
  obtain cur' ms' where st': "st' = (cur', ms')" by (cases st')
  from inv st have c0: "0 \<le> cur"
    and recs: "\<forall>r \<in> set ms. record_ok ml r \<and> markdown_line_end r \<le> cur + 1"
    and ord: "ranges_ordered ms"
    by (simp_all add: loop_inv_def)
  from map_element_result [of E ml el cur ms cur' ms'] step st st'
  consider (same) "cur' = cur" "ms' = ms"
    | (new) content where "content \<noteq> []"
        "fst (find_content_lines ml content cur) \<noteq> -1"
        "cur' = snd (find_content_lines ml content cur)"
        "\<exists>r. ms' = ms @ [r]
            \<and> markdown_line_start r = fst (find_content_lines ml content cur) + 1
            \<and> markdown_line_end r = snd (find_content_lines ml content cur) + 1
            \<and> markdown_content r = content"
    by fastforce
  then show ?thesis
  proof cases
    case same
    then show ?thesis using inv st st' by simp
  next
    case new
    let ?n = "length (split_nl content)"
    from find_content_lines_cases [OF c0, of ml content] new(2)
    obtain i where fc: "find_content_lines ml content cur = (int i, int i + int ?n - 1)"
      and ci: "nat cur \<le> i" and m: "spec_match_at ml (split_nl content) i"
      by auto
    have npos: "0 < ?n" by (rule length_split_nl_pos)
    have bound: "i + ?n \<le> length ml" using m by (rule spec_match_at_bound)
    from new(4) fc obtain r where r: "ms' = ms @ [r]"
      "markdown_line_start r = int i + 1" "markdown_line_end r = int i + int ?n"
      "markdown_content r = content" by auto
    have cur': "cur' = int i + int ?n - 1" using new(3) fc by simp
    have n1: "Suc 0 \<le> ?n" using npos by (rule Suc_leI)
    have rok: "record_ok ml r"
      using r n1 bound by (simp add: record_ok_def)
    have le: "cur \<le> int i" using ci c0 by simp
    have e: "markdown_line_end r = cur' + 1" using r(3) cur' by simp
    have ge: "cur \<le> cur'" using cur' le n1 by linarith
    have "0 \<le> cur'" using ge c0 by simp
    moreover have "\<forall>q \<in> set ms'. record_ok ml q \<and> markdown_line_end q \<le> cur' + 1"
      using recs r(1) rok e ge by auto
    moreover have "ranges_ordered ms'"
      using ord recs r le by (force simp: ranges_ordered_snoc)
    ultimately show ?thesis using st' by (simp add: loop_inv_def)
  qed
qed

lemma create_mapping_loop_inv:
  "loop_inv ml st \<Longrightarrow> \<exists>cur'. loop_inv ml (cur', snd (create_mapping_loop E ml els st))"
proof (induction els arbitrary: st)
  case Nil
  then show ?case by (cases st) auto
next
  case (Cons el els)
  show ?case
  proof (cases "map_element E ml el st")
    case (Inl e)
    then show ?thesis using Cons.prems by (cases st) auto
  next
    case (Inr st')
    then have "loop_inv ml st'" using Cons.prems map_element_inv by blast
    then show ?thesis using Cons.IH Inr by simp
  qed
qed

lemma loop_inv_init: "loop_inv ml (0, [])"
  by (simp add: loop_inv_def ranges_ordered_def)

lemma map_element_length:
  "map_element E ml el (cur, ms) = Inr (cur', ms') \<Longrightarrow>
     length ms' \<le> length ms + (if is_Tag el then 1 else 0)"
  using map_element_result [of E ml el cur ms cur' ms'] by auto

lemma create_mapping_loop_length:
  "length (snd (create_mapping_loop E ml els st))
     \<le> length (snd st) + length (filter is_Tag els)"
proof (induction els arbitrary: st)
  case Nil
  then show ?case by simp
next
  case (Cons el els)
  show ?case
  proof (cases "map_element E ml el st")
    case (Inl e)
    then show ?thesis by simp
  next
    case (Inr st')
    have "length (snd st') \<le> length (snd st) + (if is_Tag el then 1 else 0)"
      using map_element_length [of E ml el "fst st" "snd st" "fst st'" "snd st'"] Inr by simp
    moreover have "length (snd (create_mapping_loop E ml els st'))
        \<le> length (snd st') + length (filter is_Tag els)" by (rule Cons.IH)
    ultimately show ?thesis using Inr by (auto split: if_splits)
  qed
qed

lemma map_element_no_raise:
  assumes "is_Tag el \<longrightarrow> (\<exists>html m. str_of_tag E el = Inr html \<and> md E html = Inr m)"
  shows "\<exists>st'. map_element E ml el st = Inr st'"
  using assms
  by (cases el; cases st)
     (auto simp: map_element_def Let_def split: option.splits prod.splits)

lemma create_mapping_loop_no_raise:
  "\<forall>el \<in> set els. is_Tag el \<longrightarrow> (\<exists>html m. str_of_tag E el = Inr html \<and> md E html = Inr m)
   \<Longrightarrow> fst (create_mapping_loop E ml els st) = None"
proof (induction els arbitrary: st)
  case Nil
  then show ?case by simp
next
  case (Cons el els)
  then obtain st' where "map_element E ml el st = Inr st'"
    using map_element_no_raise [of el E ml st] by auto
  then show ?case using Cons by simp
qed

section \<open>Identifiers, and the conversion as a whole\<close>

lemma map_of_set_attr [simp]: "map_of (set_attr k v as) k = Some v"
  by (induction as) auto

lemma uuid_str_nonempty [simp]: "uuid_str n \<noteq> []"
  by (simp add: uuid_str_def Let_def)


lemma add_unique_ids_count:
  "length (filter is_Tag (fst (add_unique_ids E parsed k))) = length (filter is_Tag parsed)"
  by (induction E parsed k rule: add_unique_ids.induct) (auto split: prod.splits)

lemma add_unique_ids_calls:
  "snd (add_unique_ids E parsed k) = k + length (filter is_Tag parsed)"
  by (induction E parsed k rule: add_unique_ids.induct) (auto split: prod.splits)

lemma add_unique_ids_same:
  "\<forall>j < length (filter is_Tag parsed). uuid4 E (k1 + j) = uuid4 E (k2 + j)
   \<Longrightarrow> fst (add_unique_ids E parsed k1) = fst (add_unique_ids E parsed k2)"
proof (induction parsed arbitrary: k1 k2)
  case Nil
  then show ?case by simp
next
  case (Cons el rest)
  show ?case
  proof (cases el)
    case (Tag name as cs)
    have h0: "uuid4 E k1 = uuid4 E k2" using Cons.prems Tag by force
    have "\<forall>j < length (filter is_Tag rest). uuid4 E (Suc k1 + j) = uuid4 E (Suc k2 + j)"
    proof (intro allI impI)
      fix j assume "j < length (filter is_Tag rest)"
      then have "Suc j < length (filter is_Tag (el # rest))" using Tag by simp
      then have "uuid4 E (k1 + Suc j) = uuid4 E (k2 + Suc j)" using Cons.prems by blast
      then show "uuid4 E (Suc k1 + j) = uuid4 E (Suc k2 + j)" by simp
    qed
    then have "fst (add_unique_ids E rest (Suc k1)) = fst (add_unique_ids E rest (Suc k2))"
      by (rule Cons.IH)
    then show ?thesis using Tag h0 by (auto split: prod.splits)
  next
    case (NavigableString t)
    have "\<forall>j < length (filter is_Tag rest). uuid4 E (k1 + j) = uuid4 E (k2 + j)"
      using Cons.prems NavigableString by simp
    then have "fst (add_unique_ids E rest k1) = fst (add_unique_ids E rest k2)"
      by (rule Cons.IH)
    then show ?thesis using NavigableString by (auto split: prod.splits)
  qed
qed

lemma create_mapping_mappings:
  "mappings (snd (create_mapping E soup raw s)) = snd (create_mapping_loop E (split_nl raw) soup (0, []))"
  by (simp add: create_mapping_def split: prod.splits)

lemma create_mapping_fst:
  "fst (create_mapping E soup raw s) = fst (create_mapping_loop E (split_nl raw) soup (0, []))"
  by (simp add: create_mapping_def split: prod.splits)

lemma create_mapping_calls:
  "uuid_calls (snd (create_mapping E soup raw s)) = uuid_calls s"
  by (simp add: create_mapping_def split: prod.splits)

lemma create_mapping_records:
  "r \<in> set (mappings (snd (create_mapping E soup raw s))) \<Longrightarrow> record_ok (split_nl raw) r"
  using create_mapping_loop_inv [OF loop_inv_init, of "split_nl raw" E soup]
  by (auto simp: create_mapping_mappings loop_inv_def)

lemma create_mapping_ordered:
  "ranges_ordered (mappings (snd (create_mapping E soup raw s)))"
  using create_mapping_loop_inv [OF loop_inv_init, of "split_nl raw" E soup]
  by (auto simp: create_mapping_mappings loop_inv_def)

text \<open>The four ways a call of \<open>convert_with_mapping\<close> can go.\<close>

lemma convert_cases:
  obtains (parse_raises) e where "BeautifulSoup E html_text = Inl e"
      "convert_with_mapping E html_text s = (error_result html_text e, s)"
  | (render_raises) parsed soup e where "BeautifulSoup E html_text = Inr parsed"
      "soup = fst (add_unique_ids E parsed (uuid_calls s))"
      "str_of_soup E soup = Inl e \<or> (\<exists>html. str_of_soup E soup = Inr html \<and> md E html = Inl e)"
      "convert_with_mapping E html_text s
         = (error_result html_text e,
            s\<lparr>uuid_calls := uuid_calls s + length (filter is_Tag parsed)\<rparr>)"
  | (mapping_raises) parsed soup html raw e where "BeautifulSoup E html_text = Inr parsed"
      "soup = fst (add_unique_ids E parsed (uuid_calls s))"
      "str_of_soup E soup = Inr html" "md E html = Inr raw"
      "fst (create_mapping_loop E (split_nl raw) soup (0, [])) = Some e"
      "convert_with_mapping E html_text s
         = (error_result html_text e,
            \<lparr>mappings = snd (create_mapping_loop E (split_nl raw) soup (0, [])),
             uuid_calls = uuid_calls s + length (filter is_Tag parsed)\<rparr>)"
  | (converted) parsed soup html raw where "BeautifulSoup E html_text = Inr parsed"
      "soup = fst (add_unique_ids E parsed (uuid_calls s))"
      "str_of_soup E soup = Inr html" "md E html = Inr raw"
      "fst (create_mapping_loop E (split_nl raw) soup (0, [])) = None"
      "convert_with_mapping E html_text s
         = ([(''original_html_length'', PyInt (int (length html_text))),
             (''markdown_result'', PyStr (strip (add_line_numbers raw))),
             (''html_with_ids'', PyStr html),
             (''mappings'',
                PyList (map (\<lambda>m. PyDict (mapping_to_dict m))
                          (snd (create_mapping_loop E (split_nl raw) soup (0, []))))),
             (''status'', PyStr ''converted'')],
            \<lparr>mappings = snd (create_mapping_loop E (split_nl raw) soup (0, [])),
             uuid_calls = uuid_calls s + length (filter is_Tag parsed)\<rparr>)"
proof (cases "BeautifulSoup E html_text")
  case (Inl e)
  then show ?thesis using parse_raises by (simp add: convert_with_mapping_def)
next
  case (Inr parsed)
  define soup where "soup = fst (add_unique_ids E parsed (uuid_calls s))"
  have au: "add_unique_ids E parsed (uuid_calls s)
             = (soup, uuid_calls s + length (filter is_Tag parsed))"
    using add_unique_ids_calls [of E parsed "uuid_calls s"] soup_def
    by (cases "add_unique_ids E parsed (uuid_calls s)") simp
  show ?thesis
  proof (cases "str_of_soup E soup")
    case (Inl e)
    then show ?thesis using render_raises [of parsed soup e, OF Inr soup_def] Inr au
      by (simp add: convert_with_mapping_def Let_def)
  next
    case html: (Inr html)
    show ?thesis
    proof (cases "md E html")
      case (Inl e)
      then show ?thesis using render_raises [of parsed soup e, OF Inr soup_def] Inr au html
        by (simp add: convert_with_mapping_def Let_def)
    next
      case raw: (Inr raw)
      obtain err ms where loop: "create_mapping_loop E (split_nl raw) soup (0, []) = (err, ms)"
        by (cases "create_mapping_loop E (split_nl raw) soup (0, [])")
      show ?thesis
      proof (cases err)
        case None
        then show ?thesis
          using converted [of parsed soup html raw, OF Inr soup_def html raw] Inr au html raw loop
          by (simp add: convert_with_mapping_def Let_def create_mapping_def)
      next
        case (Some e)
        then show ?thesis
          using mapping_raises [of parsed soup html raw e, OF Inr soup_def html raw] Inr au html raw loop
          by (simp add: convert_with_mapping_def Let_def create_mapping_def)
      qed
    qed
  qed
qed

section \<open>Stored records and the lookup\<close>

lemma convert_mappings_cases:
  "mappings (snd (convert_with_mapping E html_text s)) = mappings s
   \<or> (\<exists>parsed html raw.
         BeautifulSoup E html_text = Inr parsed
         \<and> str_of_soup E (fst (add_unique_ids E parsed (uuid_calls s))) = Inr html
         \<and> md E html = Inr raw
         \<and> mappings (snd (convert_with_mapping E html_text s))
             = snd (create_mapping_loop E (split_nl raw)
                      (fst (add_unique_ids E parsed (uuid_calls s))) (0, [])))"
  by (rule convert_cases [of E html_text s]) auto

lemma loop_records_ok:
  "r \<in> set (snd (create_mapping_loop E ml els (0, []))) \<Longrightarrow> record_ok ml r"
  using create_mapping_loop_inv [OF loop_inv_init, of ml E els]
  by (auto simp: loop_inv_def)

lemma loop_ranges_ordered:
  "ranges_ordered (snd (create_mapping_loop E ml els (0, [])))"
  using create_mapping_loop_inv [OF loop_inv_init, of ml E els]
  by (auto simp: loop_inv_def)

lemma loop_provenance:
  "r \<in> set (snd (create_mapping_loop E ml els st)) \<Longrightarrow>
     r \<in> set (snd st)
     \<or> (\<exists>el \<in> set els. \<exists>html m. is_Tag el \<and> str_of_tag E el = Inr html \<and> md E html = Inr m
            \<and> html_content r = html \<and> html_tag r = tag_name el
            \<and> map_of (attrs el) ''data-mapping-id'' = Some (html_element_id r)
            \<and> markdown_content r = strip m \<and> strip m \<noteq> [])"
proof (induction els arbitrary: st)
  case Nil
  then show ?case by simp
next
  case (Cons el els)
  show ?case
  proof (cases "map_element E ml el st")
    case (Inl e)
    then show ?thesis using Cons.prems by simp
  next
    case (Inr st')
    then have "r \<in> set (snd (create_mapping_loop E ml els st'))" using Cons.prems by simp
    from Cons.IH [OF this] show ?thesis
    proof
      assume in': "r \<in> set (snd st')"
      have "map_element E ml el (fst st, snd st) = Inr (fst st', snd st')" using Inr by simp
      from map_element_result [OF this] show ?thesis
      proof
        assume "fst st' = fst st \<and> snd st' = snd st"
        then show ?thesis using in' by simp
      next
        assume "\<exists>name as cs ident html m.
             el = Tag name as cs \<and> map_of as ''data-mapping-id'' = Some ident \<and> ident \<noteq> []
             \<and> str_of_tag E el = Inr html \<and> md E html = Inr m \<and> strip m \<noteq> []
             \<and> fst (find_content_lines ml (strip m) (fst st)) \<noteq> -1
             \<and> fst st' = snd (find_content_lines ml (strip m) (fst st))
             \<and> snd st' = snd st @ [\<lparr>html_element_id = ident, html_content = html, html_tag = name,
                       markdown_line_start = fst (find_content_lines ml (strip m) (fst st)) + 1,
                       markdown_line_end = snd (find_content_lines ml (strip m) (fst st)) + 1,
                       markdown_content = strip m\<rparr>]"
        then obtain name as cs ident html m q where el: "el = Tag name as cs"
          and facts: "map_of as ''data-mapping-id'' = Some ident"
            "str_of_tag E el = Inr html" "md E html = Inr m" "strip m \<noteq> []"
          and q: "snd st' = snd st @ [q]" "html_element_id q = ident" "html_content q = html"
            "html_tag q = name" "markdown_content q = strip m"
          by auto
        show ?thesis
        proof (cases "r = q")
          case True
          then show ?thesis using el facts q by auto
        next
          case False
          then show ?thesis using in' q(1) by auto
        qed
      qed
    next
      assume "\<exists>el \<in> set els. \<exists>html m. is_Tag el \<and> str_of_tag E el = Inr html \<and> md E html = Inr m
            \<and> html_content r = html \<and> html_tag r = tag_name el
            \<and> map_of (attrs el) ''data-mapping-id'' = Some (html_element_id r)
            \<and> markdown_content r = strip m \<and> strip m \<noteq> []"
      then show ?thesis by auto
    qed
  qed
qed

lemma reachable_records:
  "reachable E s \<Longrightarrow> \<forall>r \<in> set (mappings s). 1 \<le> markdown_line_start r"
proof (induction rule: reachable.induct)
  case (fresh k)
  then show ?case by (simp add: init_def)
next
  case (converted s html_text)
  from convert_mappings_cases [of E html_text s] show ?case
  proof
    assume "mappings (snd (convert_with_mapping E html_text s)) = mappings s"
    then show ?thesis using converted.IH by simp
  next
    assume "\<exists>parsed html raw.
         BeautifulSoup E html_text = Inr parsed
         \<and> str_of_soup E (fst (add_unique_ids E parsed (uuid_calls s))) = Inr html
         \<and> md E html = Inr raw
         \<and> mappings (snd (convert_with_mapping E html_text s))
             = snd (create_mapping_loop E (split_nl raw)
                      (fst (add_unique_ids E parsed (uuid_calls s))) (0, []))"
    then show ?thesis using loop_records_ok by (auto simp: record_ok_def)
  qed
qed

lemma find_in_mappings_none:
  "\<forall>r \<in> set ms. \<not> (markdown_line_start r \<le> n \<and> n \<le> markdown_line_end r)
     \<Longrightarrow> find_in_mappings n ms = []"
  by (induction ms) auto

lemma find_in_mappings_first:
  "k < length ms \<Longrightarrow> markdown_line_start (ms ! k) \<le> n \<Longrightarrow> n \<le> markdown_line_end (ms ! k)
   \<Longrightarrow> \<forall>j < k. \<not> (markdown_line_start (ms ! j) \<le> n \<and> n \<le> markdown_line_end (ms ! j))
   \<Longrightarrow> find_in_mappings n ms = mapping_to_dict (ms ! k)"
proof (induction ms arbitrary: k)
  case Nil
  then show ?case by simp
next
  case (Cons r ms)
  show ?case
  proof (cases k)
    case 0
    then show ?thesis using Cons.prems by simp
  next
    case (Suc k')
    have nr: "\<not> (markdown_line_start r \<le> n \<and> n \<le> markdown_line_end r)"
      using Cons.prems(4) Suc by force
    have "\<forall>j < k'. \<not> (markdown_line_start (ms ! j) \<le> n \<and> n \<le> markdown_line_end (ms ! j))"
      using Cons.prems(4) Suc by force
    then have "find_in_mappings n ms = mapping_to_dict (ms ! k')"
      using Cons.IH [of k'] Cons.prems Suc by simp
    then show ?thesis using nr Suc by auto
  qed
qed

text \<open>
  Claim C5. \<open>find_html_by_line\<close> returns the dict of the first stored record, in document
  order, whose inclusive range holds the line number: its six fields \<open>html_element_id\<close>,
  \<open>html_tag\<close>, \<open>html_content\<close>, \<open>markdown_line_start\<close>, \<open>markdown_line_end\<close> and
  \<open>markdown_content\<close>, each with the record's value. It returns the empty dict when no
  record holds the line number; in every state a service can reach that is so for every
  line number at or below zero, and for every line number beyond the end of all records.
  The function has no error result: it returns a dict on every input.
\<close>

theorem find_html_by_line_first_match:
  assumes "reachable E s"
  shows "(\<forall>k < length (mappings s).
            markdown_line_start (mappings s ! k) \<le> n \<and> n \<le> markdown_line_end (mappings s ! k)
            \<and> (\<forall>j < k. \<not> (markdown_line_start (mappings s ! j) \<le> n
                           \<and> n \<le> markdown_line_end (mappings s ! j)))
            \<longrightarrow> find_html_by_line n s
                  = [(''html_element_id'', PyStr (html_element_id (mappings s ! k))),
                     (''html_tag'', PyStr (html_tag (mappings s ! k))),
                     (''html_content'', PyStr (html_content (mappings s ! k))),
                     (''markdown_line_start'', PyInt (markdown_line_start (mappings s ! k))),
                     (''markdown_line_end'', PyInt (markdown_line_end (mappings s ! k))),
                     (''markdown_content'', PyStr (markdown_content (mappings s ! k)))])
       \<and> ((\<forall>r \<in> set (mappings s). \<not> (markdown_line_start r \<le> n \<and> n \<le> markdown_line_end r))
            \<longrightarrow> find_html_by_line n s = [])
       \<and> (n \<le> 0 \<longrightarrow> find_html_by_line n s = [])
       \<and> ((\<forall>r \<in> set (mappings s). markdown_line_end r < n) \<longrightarrow> find_html_by_line n s = [])"
proof (intro conjI allI impI)
  fix k
  assume "k < length (mappings s)"
    and "markdown_line_start (mappings s ! k) \<le> n \<and> n \<le> markdown_line_end (mappings s ! k)
         \<and> (\<forall>j < k. \<not> (markdown_line_start (mappings s ! j) \<le> n
                           \<and> n \<le> markdown_line_end (mappings s ! j)))"
  then have "find_html_by_line n s = mapping_to_dict (mappings s ! k)"
    using find_in_mappings_first [of k "mappings s" n] by (simp add: find_html_by_line_def)
  then show "find_html_by_line n s
                  = [(''html_element_id'', PyStr (html_element_id (mappings s ! k))),
                     (''html_tag'', PyStr (html_tag (mappings s ! k))),
                     (''html_content'', PyStr (html_content (mappings s ! k))),
                     (''markdown_line_start'', PyInt (markdown_line_start (mappings s ! k))),
                     (''markdown_line_end'', PyInt (markdown_line_end (mappings s ! k))),
                     (''markdown_content'', PyStr (markdown_content (mappings s ! k)))]"
    by (simp add: mapping_to_dict_def)
next
  assume "\<forall>r \<in> set (mappings s). \<not> (markdown_line_start r \<le> n \<and> n \<le> markdown_line_end r)"
  then show "find_html_by_line n s = []"
    by (simp add: find_html_by_line_def find_in_mappings_none)
next
  assume "n \<le> 0"
  then have "\<forall>r \<in> set (mappings s). \<not> (markdown_line_start r \<le> n \<and> n \<le> markdown_line_end r)"
    using reachable_records [OF assms] by force
  then show "find_html_by_line n s = []"
    by (simp add: find_html_by_line_def find_in_mappings_none)
next
  assume "\<forall>r \<in> set (mappings s). markdown_line_end r < n"
  then have "\<forall>r \<in> set (mappings s). \<not> (markdown_line_start r \<le> n \<and> n \<le> markdown_line_end r)"
    by force
  then show "find_html_by_line n s = []"
    by (simp add: find_html_by_line_def find_in_mappings_none)
qed

theorem find_html_by_line_first_match_witness:
  "reachable demo_env demo_state
   \<and> find_html_by_line 0 demo_state = []
   \<and> map fst (find_html_by_line 3 demo_state)
       = [''html_element_id'', ''html_tag'', ''html_content'',
          ''markdown_line_start'', ''markdown_line_end'', ''markdown_content'']
   \<and> map_of (find_html_by_line 3 demo_state) ''html_element_id''
       = Some (PyStr ''00000000-0000-0000-0000-000000000001'')
   \<and> map_of (find_html_by_line 3 demo_state) ''html_tag'' = Some (PyStr ''p'')
   \<and> map_of (find_html_by_line 3 demo_state) ''html_content''
       = Some (PyStr (demo_str (demo_soup ! 1)))
   \<and> map_of (find_html_by_line 3 demo_state) ''markdown_line_start'' = Some (PyInt 3)
   \<and> map_of (find_html_by_line 3 demo_state) ''markdown_line_end'' = Some (PyInt 3)
   \<and> map_of (find_html_by_line 3 demo_state) ''markdown_content''
       = Some (PyStr ''Hello **world**'')
   \<and> find_html_by_line 9 demo_state = []"
proof -
  have r: "reachable demo_env demo_state"
    unfolding demo_state_def by (rule reachable.converted [OF reachable.fresh])
  have len: "length (mappings demo_state) = 2" by code_simp
  have r0: "markdown_line_start (mappings demo_state ! 0) = 1"
    "markdown_line_end (mappings demo_state ! 0) = 1" by code_simp+
  have r1: "markdown_line_start (mappings demo_state ! 1) = 3"
    "markdown_line_end (mappings demo_state ! 1) = 3" by code_simp+
  have f1: "html_element_id (mappings demo_state ! 1) = ''00000000-0000-0000-0000-000000000001''"
    "html_tag (mappings demo_state ! 1) = ''p''"
    "html_content (mappings demo_state ! 1) = demo_str (demo_soup ! 1)"
    "markdown_content (mappings demo_state ! 1) = ''Hello **world**''" by code_simp+
  have ends: "\<forall>r \<in> set (mappings demo_state). markdown_line_end r < 9"
    using len r0 r1 by (auto simp: in_set_conv_nth less_Suc_eq numeral_2_eq_2)
  have z: "find_html_by_line 0 demo_state = []"
    using find_html_by_line_first_match [OF r, of 0] by simp
  have hit: "find_html_by_line 3 demo_state
      = [(''html_element_id'', PyStr (html_element_id (mappings demo_state ! 1))),
         (''html_tag'', PyStr (html_tag (mappings demo_state ! 1))),
         (''html_content'', PyStr (html_content (mappings demo_state ! 1))),
         (''markdown_line_start'', PyInt (markdown_line_start (mappings demo_state ! 1))),
         (''markdown_line_end'', PyInt (markdown_line_end (mappings demo_state ! 1))),
         (''markdown_content'', PyStr (markdown_content (mappings demo_state ! 1)))]"
  proof -
    have k: "(1::nat) < length (mappings demo_state)" using len by simp
    have inside: "markdown_line_start (mappings demo_state ! 1) \<le> 3
        \<and> 3 \<le> markdown_line_end (mappings demo_state ! 1)
        \<and> (\<forall>j < 1. \<not> (markdown_line_start (mappings demo_state ! j) \<le> 3
                        \<and> 3 \<le> markdown_line_end (mappings demo_state ! j)))"
      using r0 r1 by simp
    from find_html_by_line_first_match [OF r, of 3, THEN conjunct1, rule_format, OF k inside]
    show ?thesis .
  qed
  have far: "find_html_by_line 9 demo_state = []"
    using find_html_by_line_first_match [OF r, of 9] ends by blast
  show ?thesis unfolding hit using r z far r1 f1 by simp
qed

text \<open>
  Claim C10. After a conversion whose parse and full-document render returned, every
  stored record has \<open>1 \<le> markdown_line_start \<le> markdown_line_end \<le>\<close> the number of
  lines of the unnumbered Markdown, its range has as many lines as its
  \<open>markdown_content\<close>, and that content is the stripped rendering of a top-level element;
  a result with status \<open>converted\<close> returns exactly the stored records.
\<close>

theorem mapping_record_bounds:
  assumes "BeautifulSoup E html_text = Inr parsed"
    and "str_of_soup E (fst (add_unique_ids E parsed (uuid_calls s))) = Inr html"
    and "md E html = Inr raw"
    and "r \<in> set (mappings (snd (convert_with_mapping E html_text s)))"
  shows "1 \<le> markdown_line_start r
       \<and> markdown_line_start r \<le> markdown_line_end r
       \<and> markdown_line_end r \<le> int (length (split_nl raw))
       \<and> markdown_line_end r - markdown_line_start r + 1
           = int (length (split_nl (markdown_content r)))
       \<and> (\<exists>el \<in> set (fst (add_unique_ids E parsed (uuid_calls s))). \<exists>h m.
             is_Tag el \<and> str_of_tag E el = Inr h \<and> md E h = Inr m
             \<and> markdown_content r = strip m)
       \<and> (map_of (fst (convert_with_mapping E html_text s)) ''status'' = Some (PyStr ''converted'')
            \<longrightarrow> map_of (fst (convert_with_mapping E html_text s)) ''mappings''
                = Some (PyList (map (\<lambda>m. PyDict (mapping_to_dict m))
                                  (mappings (snd (convert_with_mapping E html_text s))))))"
proof -
  let ?soup = "fst (add_unique_ids E parsed (uuid_calls s))"
  let ?ms = "snd (create_mapping_loop E (split_nl raw) ?soup (0, []))"
  have "mappings (snd (convert_with_mapping E html_text s)) = ?ms
    \<and> (map_of (fst (convert_with_mapping E html_text s)) ''status'' = Some (PyStr ''converted'')
            \<longrightarrow> map_of (fst (convert_with_mapping E html_text s)) ''mappings''
                = Some (PyList (map (\<lambda>m. PyDict (mapping_to_dict m)) ?ms)))"
    by (rule convert_cases [of E html_text s])
       (use assms(1-3) in \<open>auto simp: error_result_def\<close>)
  then have stored: "mappings (snd (convert_with_mapping E html_text s)) = ?ms"
    and ret: "map_of (fst (convert_with_mapping E html_text s)) ''status'' = Some (PyStr ''converted'')
            \<longrightarrow> map_of (fst (convert_with_mapping E html_text s)) ''mappings''
                = Some (PyList (map (\<lambda>m. PyDict (mapping_to_dict m)) ?ms))"
    by simp_all
  have r: "r \<in> set ?ms" using assms(4) stored by simp
  have ok: "record_ok (split_nl raw) r" using r by (rule loop_records_ok)
  have "\<exists>el \<in> set ?soup. \<exists>h m.
             is_Tag el \<and> str_of_tag E el = Inr h \<and> md E h = Inr m
             \<and> markdown_content r = strip m"
    using loop_provenance [OF r] by auto
  then show ?thesis using ok ret stored by (simp add: record_ok_def)
qed

theorem mapping_record_bounds_witness:
  "BeautifulSoup demo_env demo_doc = Inr demo_parsed
   \<and> str_of_soup demo_env (fst (add_unique_ids demo_env demo_parsed (uuid_calls (init 0))))
       = Inr demo_html
   \<and> md demo_env demo_html = Inr demo_raw
   \<and> mappings demo_state ! 1 \<in> set (mappings demo_state)
   \<and> 1 \<le> markdown_line_start (mappings demo_state ! 1)
   \<and> markdown_line_start (mappings demo_state ! 1) \<le> markdown_line_end (mappings demo_state ! 1)
   \<and> markdown_line_end (mappings demo_state ! 1) \<le> int (length (split_nl demo_raw))
   \<and> markdown_line_end (mappings demo_state ! 1) - markdown_line_start (mappings demo_state ! 1) + 1
       = int (length (split_nl (markdown_content (mappings demo_state ! 1))))"
proof -
  have h1: "BeautifulSoup demo_env demo_doc = Inr demo_parsed" by code_simp
  have h2: "str_of_soup demo_env (fst (add_unique_ids demo_env demo_parsed (uuid_calls (init 0))))
       = Inr demo_html" by code_simp
  have h3: "md demo_env demo_html = Inr demo_raw" by code_simp
  have len: "length (mappings demo_state) = 2" by code_simp
  have h4: "mappings demo_state ! 1
      \<in> set (mappings (snd (convert_with_mapping demo_env demo_doc (init 0))))"
    using len by (simp add: demo_state_def [symmetric])
  from mapping_record_bounds [OF h1 h2 h3 h4] h1 h2 h3 h4
  show ?thesis by (simp add: demo_state_def [symmetric])
qed

text \<open>
  Claim C6. When the parse returns and every rendering call of the run returns (the
  serialisation and rendering of the whole tree and of each top-level element), the result
  has status \<open>converted\<close> and its list of mappings is no longer than the number of
  top-level elements of the parsed root.
\<close>

theorem converted_status_and_count:
  assumes "BeautifulSoup E html_text = Inr parsed"
    and "str_of_soup E (fst (add_unique_ids E parsed (uuid_calls s))) = Inr html"
    and "md E html = Inr raw"
    and "\<forall>el \<in> set (fst (add_unique_ids E parsed (uuid_calls s))).
           is_Tag el \<longrightarrow> (\<exists>h m. str_of_tag E el = Inr h \<and> md E h = Inr m)"
  shows "\<exists>ds. map_of (fst (convert_with_mapping E html_text s)) ''status''
                = Some (PyStr ''converted'')
            \<and> map_of (fst (convert_with_mapping E html_text s)) ''mappings'' = Some (PyList ds)
            \<and> length ds \<le> length (filter is_Tag parsed)"
proof -
  let ?soup = "fst (add_unique_ids E parsed (uuid_calls s))"
  let ?ms = "snd (create_mapping_loop E (split_nl raw) ?soup (0, []))"
  have none: "fst (create_mapping_loop E (split_nl raw) ?soup (0, [])) = None"
    using assms(4) by (rule create_mapping_loop_no_raise)
  have res: "fst (convert_with_mapping E html_text s)
      = [(''original_html_length'', PyInt (int (length html_text))),
         (''markdown_result'', PyStr (strip (add_line_numbers raw))),
         (''html_with_ids'', PyStr html),
         (''mappings'', PyList (map (\<lambda>m. PyDict (mapping_to_dict m)) ?ms)),
         (''status'', PyStr ''converted'')]"
    by (rule convert_cases [of E html_text s]) (use assms(1-3) none in auto)
  have "length ?ms \<le> length (filter is_Tag ?soup)"
    using create_mapping_loop_length [of E "split_nl raw" ?soup "(0, [])"] by simp
  then have "length (map (\<lambda>m. PyDict (mapping_to_dict m)) ?ms) \<le> length (filter is_Tag parsed)"
    by (simp add: add_unique_ids_count)
  then show ?thesis using res by simp
qed

theorem converted_status_and_count_witness:
  "BeautifulSoup demo_env demo_doc = Inr demo_parsed
   \<and> md demo_env demo_html = Inr demo_raw
   \<and> length (filter is_Tag demo_parsed) = 2
   \<and> (\<exists>ds. map_of (fst (convert_with_mapping demo_env demo_doc (init 0))) ''status''
                = Some (PyStr ''converted'')
            \<and> map_of (fst (convert_with_mapping demo_env demo_doc (init 0))) ''mappings''
                = Some (PyList ds)
            \<and> length ds \<le> length (filter is_Tag demo_parsed))"
proof -
  have h1: "BeautifulSoup demo_env demo_doc = Inr demo_parsed" by code_simp
  have h2: "str_of_soup demo_env (fst (add_unique_ids demo_env demo_parsed (uuid_calls (init 0))))
       = Inr demo_html" by code_simp
  have h3: "md demo_env demo_html = Inr demo_raw" by code_simp
  have h4: "\<forall>el \<in> set (fst (add_unique_ids demo_env demo_parsed (uuid_calls (init 0)))).
           is_Tag el \<longrightarrow> (\<exists>h m. str_of_tag demo_env el = Inr h \<and> md demo_env h = Inr m)"
    by (simp add: demo_env_def)
  have "length (filter is_Tag demo_parsed) = 2" by code_simp
  then show ?thesis using converted_status_and_count [OF h1 h2 h3 h4] h1 h3 by simp
qed




text \<open>
  What \<open>_find_content_lines\<close> and the loop do on a match. For a top-level element with a
  non-empty stripped rendering and a cursor \<open>\<ge> 0\<close>: when \<open>i\<close> is the least index at or
  after the cursor at which the lines of the document, stripped, equal the lines of the
  rendering, stripped, in order, the search returns \<open>(i, i + len - 1)\<close> and the loop appends
  the record with \<open>markdown_line_start = i + 1\<close> and \<open>markdown_line_end = i + len\<close>. The
  loop then goes on with \<open>i + len - 1\<close> as its cursor, and no later search returns a range
  that starts before that cursor.
\<close>

theorem reconciliation_search:
  assumes "0 \<le> cursor"
    and "map_of as ''data-mapping-id'' = Some ident" and "ident \<noteq> []"
    and "str_of_tag E (Tag name as cs) = Inr html" and "md E html = Inr m"
    and "strip m \<noteq> []"
    and "nat cursor \<le> i" and "spec_match_at ml (split_nl (strip m)) i"
    and "\<forall>k. nat cursor \<le> k \<and> k < i \<longrightarrow> \<not> spec_match_at ml (split_nl (strip m)) k"
  shows "find_content_lines ml (strip m) cursor
           = (int i, int i + int (length (split_nl (strip m))) - 1)
       \<and> map_element E ml (Tag name as cs) (cursor, ms)
           = Inr (int i + int (length (split_nl (strip m))) - 1,
                  ms @ [\<lparr>html_element_id = ident, html_content = html, html_tag = name,
                         markdown_line_start = int i + 1,
                         markdown_line_end = int i + int (length (split_nl (strip m))),
                         markdown_content = strip m\<rparr>])
       \<and> (\<forall>content'.
             find_content_lines ml content' (int i + int (length (split_nl (strip m))) - 1)
               = (-1, -1)
             \<or> int i + int (length (split_nl (strip m))) - 1
                 \<le> fst (find_content_lines ml content'
                           (int i + int (length (split_nl (strip m))) - 1)))"
proof -
  let ?cl = "split_nl (strip m)"
  let ?c' = "int i + int (length ?cl) - 1"
  have n1: "Suc 0 \<le> length ?cl" using length_split_nl_pos [of "strip m"] by (rule Suc_leI)
  from find_content_lines_cases [OF assms(1), of ml "strip m"]
  have fc: "find_content_lines ml (strip m) cursor = (int i, ?c')"
  proof
    assume "find_content_lines ml (strip m) cursor = (-1, -1)
            \<and> (\<forall>i \<ge> nat cursor. \<not> spec_match_at ml ?cl i)"
    then show ?thesis using assms(7,8) by blast
  next
    assume "\<exists>i'. find_content_lines ml (strip m) cursor = (int i', int i' + int (length ?cl) - 1)
                \<and> nat cursor \<le> i' \<and> spec_match_at ml ?cl i'
                \<and> (\<forall>k. nat cursor \<le> k \<and> k < i' \<longrightarrow> \<not> spec_match_at ml ?cl k)"
    then obtain i' where i': "find_content_lines ml (strip m) cursor
          = (int i', int i' + int (length ?cl) - 1)"
        "nat cursor \<le> i'" "spec_match_at ml ?cl i'"
        "\<forall>k. nat cursor \<le> k \<and> k < i' \<longrightarrow> \<not> spec_match_at ml ?cl k"
      by blast
    have "\<not> i' < i" using assms(9) i'(2,3) by blast
    moreover have "\<not> i < i'" using i'(4) assms(7,8) by blast
    ultimately have "i' = i" by simp
    then show ?thesis using i'(1) by simp
  qed
  have step: "map_element E ml (Tag name as cs) (cursor, ms)
           = Inr (?c',
                  ms @ [\<lparr>html_element_id = ident, html_content = html, html_tag = name,
                         markdown_line_start = int i + 1,
                         markdown_line_end = int i + int (length ?cl),
                         markdown_content = strip m\<rparr>])"
    using map_element_Tag [OF assms(2,3,4,5), of ml cursor ms] assms(6) fc by simp
  have c'0: "0 \<le> ?c'" using n1 by linarith
  have later: "find_content_lines ml content' ?c' = (-1, -1)
             \<or> ?c' \<le> fst (find_content_lines ml content' ?c')" for content'
    using find_content_lines_cases [OF c'0, of ml content'] by auto
  show ?thesis using fc step later by blast
qed

theorem reconciliation_search_witness:
  "map_of [(''data-mapping-id'', ''u1'')] ''data-mapping-id'' = Some ''u1''
   \<and> strip ''b'' \<noteq> []
   \<and> spec_match_at [''a'', '' b '', ''c''] (split_nl (strip ''b'')) 1
   \<and> find_content_lines [''a'', '' b '', ''c''] (strip ''b'') 0 = (1, 1)
   \<and> find_content_lines [''a'', '' b '', ''c''] ''c'' 1 = (2, 2)"
proof -
  let ?E = "demo_env\<lparr>md := (\<lambda>h. Inr ''b'')\<rparr>"
  have h1: "(0::int) \<le> 0" by simp
  have h2: "map_of [(''data-mapping-id'', ''u1'')] ''data-mapping-id'' = Some ''u1''" by simp
  have h3: "''u1'' \<noteq> []" by simp
  have h4: "str_of_tag ?E (Tag ''p'' [(''data-mapping-id'', ''u1'')] [])
      = Inr (demo_str (Tag ''p'' [(''data-mapping-id'', ''u1'')] []))"
    by (simp add: demo_env_def)
  have h5: "md ?E (demo_str (Tag ''p'' [(''data-mapping-id'', ''u1'')] [])) = Inr ''b''"
    by simp
  have sb: "strip ''b'' = ''b''" by code_simp
  have h6: "strip ''b'' \<noteq> []" using sb by simp
  have h7: "nat 0 \<le> (1::nat)" by simp
  have m1: "lines_match [''a'', '' b '', ''c''] (split_nl (strip ''b'')) 1 0" by code_simp
  have m0: "\<not> lines_match [''a'', '' b '', ''c''] (split_nl (strip ''b'')) 0 0" by code_simp
  have h8: "spec_match_at [''a'', '' b '', ''c''] (split_nl (strip ''b'')) 1"
    using m1 lines_match_spec [of 1 "[''a'', '' b '', ''c'']" "split_nl (strip ''b'')"] by simp
  have n0: "\<not> spec_match_at [''a'', '' b '', ''c''] (split_nl (strip ''b'')) 0"
    using m0 lines_match_spec [of 0 "[''a'', '' b '', ''c'']" "split_nl (strip ''b'')"] by simp
  have h9: "\<forall>k. nat 0 \<le> k \<and> k < 1
       \<longrightarrow> \<not> spec_match_at [''a'', '' b '', ''c''] (split_nl (strip ''b'')) k"
    using n0 by auto
  have len: "int (length (split_nl (strip ''b''))) = 1" by code_simp
  have nxt: "find_content_lines [''a'', '' b '', ''c''] ''c'' 1 = (2, 2)" by code_simp
  from reconciliation_search [OF h1 h2 h3 h4 h5 h6 h7 h8 h9] len
  have "find_content_lines [''a'', '' b '', ''c''] (strip ''b'') 0 = (1, 1)" by simp
  then show ?thesis using h2 h6 h8 nxt by simp
qed

text \<open>
  Claim C2, at the failing input: two equal paragraphs, whose document has the lines
  \<open>a, (empty), a\<close>. The search for the first paragraph's \<open>a\<close> from cursor 0 claims line 0
  and leaves the cursor on it; the search for the second paragraph's \<open>a\<close> from that cursor
  returns line 0 again, a line that is already claimed, where the claim has the next search
  kept out of the claimed lines.
\<close>

theorem next_search_reaches_claimed_line:
  "find_content_lines [''a'', [], ''a''] ''a'' 0 = (0, 0)
   \<and> find_content_lines [''a'', [], ''a''] ''a'' (snd (find_content_lines [''a'', [], ''a''] ''a'' 0))
       = (0, 0)"
  by code_simp

section \<open>What a result depends on\<close>

lemma convert_fst:
  "fst (convert_with_mapping E html_text s) =
     (case BeautifulSoup E html_text of
        Inl e \<Rightarrow> error_result html_text e
      | Inr parsed \<Rightarrow>
         (case str_of_soup E (fst (add_unique_ids E parsed (uuid_calls s))) of
            Inl e \<Rightarrow> error_result html_text e
          | Inr html \<Rightarrow>
             (case md E html of
                Inl e \<Rightarrow> error_result html_text e
              | Inr raw \<Rightarrow>
                 (case fst (create_mapping_loop E (split_nl raw)
                              (fst (add_unique_ids E parsed (uuid_calls s))) (0, [])) of
                    Some e \<Rightarrow> error_result html_text e
                  | None \<Rightarrow>
                     [(''original_html_length'', PyInt (int (length html_text))),
                      (''markdown_result'', PyStr (strip (add_line_numbers raw))),
                      (''html_with_ids'', PyStr html),
                      (''mappings'',
                         PyList (map (\<lambda>m. PyDict (mapping_to_dict m))
                           (snd (create_mapping_loop E (split_nl raw)
                              (fst (add_unique_ids E parsed (uuid_calls s))) (0, []))))),
                      (''status'', PyStr ''converted'')]))))"
  by (rule convert_cases [of E html_text s]) auto

text \<open>
  Claim C8, as amended. The result of a conversion is a function of the input text and
  of the identifiers drawn for its top-level elements: two calls on the same text, in any
  two states of the service in which the generator hands out the same UUIDs, return equal
  results. What the service stored before has no influence.
\<close>

theorem conversion_depends_on_input_and_ids:
  assumes "\<forall>parsed. BeautifulSoup E html_text = Inr parsed \<longrightarrow>
             (\<forall>j < length (filter is_Tag parsed).
                uuid4 E (uuid_calls s1 + j) = uuid4 E (uuid_calls s2 + j))"
  shows "fst (convert_with_mapping E html_text s1) = fst (convert_with_mapping E html_text s2)"
proof (cases "BeautifulSoup E html_text")
  case (Inl e)
  then show ?thesis by (simp add: convert_fst)
next
  case (Inr parsed)
  then have "\<forall>j < length (filter is_Tag parsed).
                uuid4 E (uuid_calls s1 + j) = uuid4 E (uuid_calls s2 + j)"
    using assms by blast
  then have eq: "fst (add_unique_ids E parsed (uuid_calls s1))
           = fst (add_unique_ids E parsed (uuid_calls s2))"
    by (rule add_unique_ids_same)
  show ?thesis unfolding convert_fst Inr sum.case eq by (rule refl)
qed

theorem conversion_depends_on_input_and_ids_witness:
  "mappings (init 0) \<noteq> mappings (demo_state\<lparr>uuid_calls := 0\<rparr>)
   \<and> BeautifulSoup demo_env twin_doc
       = Inr [Tag ''p'' [] [NavigableString ''a''], Tag ''p'' [] [NavigableString ''a'']]
   \<and> fst (convert_with_mapping demo_env twin_doc (init 0))
     = fst (convert_with_mapping demo_env twin_doc (demo_state\<lparr>uuid_calls := 0\<rparr>))"
proof -
  have "\<forall>parsed. BeautifulSoup demo_env twin_doc = Inr parsed \<longrightarrow>
             (\<forall>j < length (filter is_Tag parsed).
                uuid4 demo_env (uuid_calls (init 0) + j)
                  = uuid4 demo_env (uuid_calls (demo_state\<lparr>uuid_calls := 0\<rparr>) + j))"
    by (simp add: init_def)
  from conversion_depends_on_input_and_ids [OF this]
  have "fst (convert_with_mapping demo_env twin_doc (init 0))
     = fst (convert_with_mapping demo_env twin_doc (demo_state\<lparr>uuid_calls := 0\<rparr>))" .
  moreover have "mappings (init 0) \<noteq> mappings (demo_state\<lparr>uuid_calls := 0\<rparr>)"
    by code_simp
  moreover have "BeautifulSoup demo_env twin_doc
       = Inr [Tag ''p'' [] [NavigableString ''a''], Tag ''p'' [] [NavigableString ''a'']]"
    by code_simp
  ultimately show ?thesis by simp
qed

text \<open>
  Against claim C8 as stated: two calls in a row on the same text return different
  results, because the second call draws new UUIDs.
\<close>

theorem second_conversion_differs:
  "fst (convert_with_mapping demo_env twin_doc (init 0))
     \<noteq> fst (convert_with_mapping demo_env twin_doc
              (snd (convert_with_mapping demo_env twin_doc (init 0))))"
  by code_simp

text \<open>
  Claim C1, at the failing input: two equal paragraphs. The whole document renders to
  the lines \<open>a, (empty), a, (empty), (empty)\<close>; both records get the range \<open>[1, 1]\<close>,
  and line 3, which the second paragraph produced, belongs to no record.
\<close>

theorem equal_paragraphs_share_a_line:
  "map markdown_line_start (mappings (snd (convert_with_mapping demo_env twin_doc (init 0))))
     = [1, 1]
   \<and> map markdown_line_end (mappings (snd (convert_with_mapping demo_env twin_doc (init 0))))
     = [1, 1]
   \<and> find_html_by_line 3 (snd (convert_with_mapping demo_env twin_doc (init 0))) = []"
  by code_simp

section \<open>Exceptions\<close>

lemma create_mapping_loop_raises:
  "fst (create_mapping_loop E ml els st) = Some e \<Longrightarrow>
     \<exists>el \<in> set els. is_Tag el
        \<and> (str_of_tag E el = Inl e \<or> (\<exists>h. str_of_tag E el = Inr h \<and> md E h = Inl e))"
proof (induction els arbitrary: st)
  case Nil
  then show ?case by simp
next
  case (Cons el els)
  show ?case
  proof (cases "map_element E ml el st")
    case (Inl e')
    then have "e' = e" using Cons.prems by simp
    then have "is_Tag el
        \<and> (str_of_tag E el = Inl e \<or> (\<exists>h. str_of_tag E el = Inr h \<and> md E h = Inl e))"
      using Inl
      by (cases el; cases st)
         (auto simp: map_element_def Let_def
               split: option.splits sum.splits if_splits prod.splits)
    then show ?thesis by auto
  next
    case (Inr st')
    then show ?thesis using Cons by auto
  qed
qed

lemma raises_before_mapping_result:
  assumes "raises_before_mapping E html_text s e"
  shows "fst (convert_with_mapping E html_text s) = error_result html_text e"
    and "mappings (snd (convert_with_mapping E html_text s)) = mappings s"
  using assms
  by (induction rule: raises_before_mapping.induct)
     (auto simp: convert_with_mapping_def Let_def split: prod.splits)

lemma raises_result:
  assumes "raises E html_text s e"
  shows "fst (convert_with_mapping E html_text s) = error_result html_text e"
  using assms
proof (induction rule: raises.induct)
  case (early e)
  then show ?case by (rule raises_before_mapping_result)
next
  case (mapping parsed html raw e)
  then show ?case by (simp add: convert_fst)
qed

text \<open>
  Claim C3, as amended. When a call inside the \<open>try\<close> block raises an exception \<open>e\<close>,
  \<open>convert_with_mapping\<close> still returns a dict: status \<open>error\<close>, an empty
  \<open>markdown_result\<close>, an empty list of mappings, \<open>original_html_length\<close> the length of the
  input, no \<open>html_with_ids\<close>, and \<open>error\<close> the text \<open>str(e)\<close> of the exception, whatever
  that text is.
\<close>

theorem raised_exception_gives_error_result:
  assumes "raises E html_text s e"
  shows "fst (convert_with_mapping E html_text s) = error_result html_text e
       \<and> map_of (fst (convert_with_mapping E html_text s)) ''status'' = Some (PyStr ''error'')
       \<and> map_of (fst (convert_with_mapping E html_text s)) ''markdown_result'' = Some (PyStr [])
       \<and> map_of (fst (convert_with_mapping E html_text s)) ''mappings'' = Some (PyList [])
       \<and> map_of (fst (convert_with_mapping E html_text s)) ''error'' = Some (PyStr (message e))
       \<and> map_of (fst (convert_with_mapping E html_text s)) ''original_html_length''
           = Some (PyInt (int (length html_text)))
       \<and> map_of (fst (convert_with_mapping E html_text s)) ''html_with_ids'' = None"
  using raises_result [OF assms] by (simp add: error_result_def)

theorem raised_exception_gives_error_result_witness:
  "raises demo_env ''<br>'' (init 0) (Exception ''unsupported document'')
   \<and> map_of (fst (convert_with_mapping demo_env ''<br>'' (init 0))) ''status''
       = Some (PyStr ''error'')
   \<and> map_of (fst (convert_with_mapping demo_env ''<br>'' (init 0))) ''error''
       = Some (PyStr ''unsupported document'')
   \<and> map_of (fst (convert_with_mapping demo_env ''<br>'' (init 0))) ''original_html_length''
       = Some (PyInt 4)"
proof -
  have "BeautifulSoup demo_env ''<br>'' = Inl (Exception ''unsupported document'')"
    by code_simp
  then have r: "raises demo_env ''<br>'' (init 0) (Exception ''unsupported document'')"
    by (intro raises.early raises_before_mapping.parsing)
  from raised_exception_gives_error_result [OF r] r show ?thesis by (simp add: error_result_def)
qed

text \<open>
  Against claim C3 as stated: a parser that raises an exception whose text is empty
  (as \<open>str(MemoryError())\<close> is) gives an error result whose \<open>error\<close> is the empty text.
\<close>

theorem error_message_can_be_empty:
  "BeautifulSoup (raising_env []) demo_doc = Inl (Exception [])
   \<and> map_of (fst (convert_with_mapping (raising_env []) demo_doc (init 0))) ''status''
       = Some (PyStr ''error'')
   \<and> map_of (fst (convert_with_mapping (raising_env []) demo_doc (init 0))) ''error''
       = Some (PyStr [])"
  by code_simp

text \<open>
  Claim C9. When the call raises before the mapping phase, the result is the error dict
  with an empty list of mappings, while the list the service stores is the one it stored
  before the call, so \<open>find_html_by_line\<close> answers as before. Once the parse and the
  rendering of the whole tree have returned, the stored list is the one the loop of
  \<open>_create_mapping\<close> builds from the empty list, whatever was stored before.
\<close>

theorem failure_before_mapping_keeps_stored_list:
  "(raises_before_mapping E html_text s e \<longrightarrow>
      mappings (snd (convert_with_mapping E html_text s)) = mappings s
      \<and> (\<forall>n. find_html_by_line n (snd (convert_with_mapping E html_text s))
               = find_html_by_line n s)
      \<and> map_of (fst (convert_with_mapping E html_text s)) ''status'' = Some (PyStr ''error'')
      \<and> map_of (fst (convert_with_mapping E html_text s)) ''mappings'' = Some (PyList []))
   \<and> (BeautifulSoup E html_text = Inr parsed
       \<and> str_of_soup E (fst (add_unique_ids E parsed (uuid_calls s))) = Inr html
       \<and> md E html = Inr raw \<longrightarrow>
      mappings (snd (convert_with_mapping E html_text s))
        = snd (create_mapping_loop E (split_nl raw)
                 (fst (add_unique_ids E parsed (uuid_calls s))) (0, [])))"
proof (intro conjI impI)
  assume r: "raises_before_mapping E html_text s e"
  show "mappings (snd (convert_with_mapping E html_text s)) = mappings s"
    using r by (rule raises_before_mapping_result)
  then show "\<forall>n. find_html_by_line n (snd (convert_with_mapping E html_text s))
               = find_html_by_line n s"
    by (simp add: find_html_by_line_def)
  have "fst (convert_with_mapping E html_text s) = error_result html_text e"
    using r by (rule raises_before_mapping_result)
  then show "map_of (fst (convert_with_mapping E html_text s)) ''status'' = Some (PyStr ''error'')"
    and "map_of (fst (convert_with_mapping E html_text s)) ''mappings'' = Some (PyList [])"
    by (simp_all add: error_result_def)
next
  assume a: "BeautifulSoup E html_text = Inr parsed
       \<and> str_of_soup E (fst (add_unique_ids E parsed (uuid_calls s))) = Inr html
       \<and> md E html = Inr raw"
  show "mappings (snd (convert_with_mapping E html_text s))
        = snd (create_mapping_loop E (split_nl raw)
                 (fst (add_unique_ids E parsed (uuid_calls s))) (0, []))"
    by (rule convert_cases [of E html_text s]) (use a in auto)
qed

theorem failure_before_mapping_keeps_stored_list_witness:
  "raises_before_mapping (raising_env ''boom'') demo_doc demo_state (Exception ''boom'')
   \<and> length (mappings demo_state) = 2
   \<and> mappings (snd (convert_with_mapping (raising_env ''boom'') demo_doc demo_state))
       = mappings demo_state
   \<and> find_html_by_line 3 (snd (convert_with_mapping (raising_env ''boom'') demo_doc demo_state))
       = find_html_by_line 3 demo_state
   \<and> map_of (fst (convert_with_mapping (raising_env ''boom'') demo_doc demo_state)) ''mappings''
       = Some (PyList [])
   \<and> BeautifulSoup demo_env twin_doc
       = Inr [Tag ''p'' [] [NavigableString ''a''], Tag ''p'' [] [NavigableString ''a'']]
   \<and> mappings (snd (convert_with_mapping demo_env twin_doc demo_state))
       = mappings (snd (convert_with_mapping demo_env twin_doc (init 2)))"
proof -
  let ?parsed = "[Tag ''p'' [] [NavigableString ''a''], Tag ''p'' [] [NavigableString ''a'']]"
  let ?soup = "\<lambda>s. fst (add_unique_ids demo_env ?parsed (uuid_calls s))"
  let ?html = "\<lambda>s. concat (map demo_str (?soup s))"
  let ?raw = "\<lambda>s. demo_scan None (?html s)"
  have "BeautifulSoup (raising_env ''boom'') demo_doc = Inl (Exception ''boom'')"
    by (simp add: raising_env_def)
  then have r: "raises_before_mapping (raising_env ''boom'') demo_doc demo_state (Exception ''boom'')"
    by (rule raises_before_mapping.parsing)
  have len: "length (mappings demo_state) = 2" by code_simp
  have p: "BeautifulSoup demo_env twin_doc = Inr ?parsed" by code_simp
  have reached: "BeautifulSoup demo_env twin_doc = Inr ?parsed
       \<and> str_of_soup demo_env (?soup s) = Inr (?html s)
       \<and> md demo_env (?html s) = Inr (?raw s)" for s
    using p by (simp add: demo_env_def)
  have calls: "uuid_calls demo_state = uuid_calls (init 2)" by code_simp
  have "mappings (snd (convert_with_mapping demo_env twin_doc demo_state))
       = snd (create_mapping_loop demo_env (split_nl (?raw demo_state)) (?soup demo_state) (0, []))"
    using failure_before_mapping_keeps_stored_list
            [of demo_env twin_doc demo_state _ ?parsed "?html demo_state" "?raw demo_state"]
          reached [of demo_state] by blast
  moreover have "mappings (snd (convert_with_mapping demo_env twin_doc (init 2)))
       = snd (create_mapping_loop demo_env (split_nl (?raw (init 2))) (?soup (init 2)) (0, []))"
    using failure_before_mapping_keeps_stored_list
            [of demo_env twin_doc "init 2" _ ?parsed "?html (init 2)" "?raw (init 2)"]
          reached [of "init 2"] by blast
  ultimately have same: "mappings (snd (convert_with_mapping demo_env twin_doc demo_state))
       = mappings (snd (convert_with_mapping demo_env twin_doc (init 2)))"
    using calls by simp
  from failure_before_mapping_keeps_stored_list
         [of "raising_env ''boom''" demo_doc demo_state "Exception ''boom''"] r len p same
  show ?thesis by simp
qed

section \<open>Numbered lines\<close>

lemma digit_char_cases:
  "d < 10 \<Longrightarrow> is_digit (digit_char d)"
  by (simp add: is_digit_def digit_char_def char_of_eq_iff take_bit_eq_mod) arith

lemma dec_digits: "c \<in> set (dec n) \<Longrightarrow> is_digit c"
proof (induction n arbitrary: c rule: dec.induct)
  case (1 n)
  show ?case
  proof (cases "n < 10")
    case True
    then have "c = digit_char n" using "1.prems" by (simp add: dec.simps [of n])
    then show ?thesis using True digit_char_cases [of n] by simp
  next
    case False
    then have "c \<in> set (dec (n div 10)) \<or> c = digit_char (n mod 10)"
      using "1.prems" by (simp add: dec.simps [of n]) blast
    then show ?thesis
    proof
      assume "c \<in> set (dec (n div 10))"
      then show ?thesis using False by (rule "1.IH" [rotated])
    next
      assume "c = digit_char (n mod 10)"
      then show ?thesis using digit_char_cases [of "n mod 10"] by simp
    qed
  qed
qed

lemma digit_not_space: "is_digit c \<Longrightarrow> \<not> is_space c \<and> c \<noteq> newline"
  by (auto simp: is_digit_def is_space_def newline_def)

lemma digit_value: "d < 10 \<Longrightarrow> of_char (digit_char d) - 48 = d"
  by (simp add: digit_char_def)

lemma digits_value_snoc: "digits_value (s @ [c]) = 10 * digits_value s + (of_char c - 48)"
  by (simp add: digits_value_def)

lemma digits_value_dec: "digits_value (dec n) = n"
proof (induction n rule: dec.induct)
  case (1 n)
  show ?case
  proof (cases "n < 10")
    case True
    then show ?thesis
      using digit_value [of n] by (simp add: dec.simps [of n] digits_value_def)
  next
    case False
    have "digits_value (dec n) = 10 * digits_value (dec (n div 10)) + (of_char (digit_char (n mod 10)) - 48)"
      using False by (simp add: dec.simps [of n] digits_value_snoc)
    also have "\<dots> = 10 * (n div 10) + n mod 10"
      using "1.IH" [OF False] digit_value [of "n mod 10"] by simp
    finally show ?thesis by simp
  qed
qed

lemma digits_value_zeros: "digits_value (replicate k (CHR ''0'') @ s) = digits_value s"
proof -
  have "foldl (\<lambda>acc c. 10 * acc + (of_char c - 48)) 0 (replicate k (CHR ''0'')) = (0::nat)"
    by (induction k) simp_all
  then show ?thesis by (simp add: digits_value_def)
qed

lemma digits_value_fmt03: "digits_value (fmt03 n) = n"
  by (simp add: fmt03_def digits_value_zeros digits_value_dec)

lemma length_dec_pos: "0 < length (dec n)"
  by (subst dec.simps) simp

lemma length_dec_bounds: "n < 10 ^ length (dec n) \<and> (10 \<le> n \<longrightarrow> 10 ^ (length (dec n) - 1) \<le> n)"
proof (induction n rule: dec.induct)
  case (1 n)
  show ?case
  proof (cases "n < 10")
    case True
    then show ?thesis by (simp add: dec.simps [of n])
  next
    case False
    let ?k = "length (dec (n div 10))"
    have len: "length (dec n) = Suc ?k" using False by (simp add: dec.simps [of n])
    have ih: "n div 10 < 10 ^ ?k" "10 \<le> n div 10 \<longrightarrow> 10 ^ (?k - 1) \<le> n div 10"
      using "1.IH" [OF False] by simp_all
    have kpos: "0 < ?k" by (rule length_dec_pos)
    have up: "n < 10 ^ Suc ?k" using ih(1) by simp
    have low: "10 ^ ?k \<le> n"
    proof (cases "10 \<le> n div 10")
      case True
      then have "10 ^ (?k - 1) \<le> n div 10" using ih(2) by simp
      then have "10 * 10 ^ (?k - 1) \<le> n" by simp
      moreover have "(10::nat) * 10 ^ (?k - 1) = 10 ^ ?k"
        using kpos by (cases ?k) simp_all
      ultimately show ?thesis by simp
    next
      case False
      then have "?k = 1" by (simp add: dec.simps [of "n div 10"])
      then show ?thesis using \<open>\<not> n < 10\<close> by simp
    qed
    show ?thesis using len up low by simp
  qed
qed

lemma length_dec_le3: "length (dec n) \<le> 3 \<longleftrightarrow> n < 1000"
proof
  assume "length (dec n) \<le> 3"
  then have "(10::nat) ^ length (dec n) \<le> 10 ^ 3" by (intro power_increasing) simp_all
  then show "n < 1000" using length_dec_bounds [of n] by simp
next
  assume n: "n < 1000"
  show "length (dec n) \<le> 3"
  proof (rule ccontr)
    assume "\<not> length (dec n) \<le> 3"
    then have k: "3 \<le> length (dec n) - 1" by simp
    then have "(10::nat) ^ 3 \<le> 10 ^ (length (dec n) - 1)" by (intro power_increasing) simp_all
    moreover have "10 \<le> n"
    proof (rule ccontr)
      assume "\<not> 10 \<le> n"
      then have "length (dec n) = 1" by (simp add: dec.simps [of n])
      then show False using k by simp
    qed
    ultimately show False using length_dec_bounds [of n] n by simp
  qed
qed

lemma fmt03_length: "length (fmt03 n) = max 3 (length (dec n))"
  by (simp add: fmt03_def)

lemma fmt03_large: "1000 \<le> n \<Longrightarrow> fmt03 n = dec n"
  using length_dec_le3 [of n] by (simp add: fmt03_def)

lemma fmt03_digits: "c \<in> set (fmt03 n) \<Longrightarrow> is_digit c"
  using dec_digits [of c n] by (auto simp: fmt03_def is_digit_def)

lemma lstrip_id: "s \<noteq> [] \<Longrightarrow> \<not> is_space (hd s) \<Longrightarrow> lstrip s = s"
  by (cases s) (simp_all add: lstrip_def)

lemma rstrip_after_nonspace: "\<not> is_space c \<Longrightarrow> rstrip (a @ c # b) = a @ c # rstrip b"
  by (simp add: rstrip_def dropWhile_append)

lemma rstrip_subset: "set (rstrip s) \<subseteq> set s"
  using set_dropWhileD [of _ is_space "rev s"] by (auto simp: rstrip_def)

lemma join_nl_snoc: "ls \<noteq> [] \<Longrightarrow> join_nl (ls @ [l]) = join_nl ls @ newline # l"
  by (induction ls rule: join_nl.induct) simp_all

lemma bracket_not_space: "\<not> is_space (CHR ''['')" "\<not> is_space (CHR '']'')"
  by (simp_all add: is_space_def)

lemma numbered_line_no_newline:
  "newline \<notin> set l \<Longrightarrow> newline \<notin> set (numbered_line (i, l))"
  using fmt03_digits [of newline i] digit_not_space [of newline]
  by (auto simp: numbered_line_def newline_def)

lemma numbered_lines_no_newline:
  "l \<in> set (map numbered_line (List.enumerate k (split_nl raw))) \<Longrightarrow> newline \<notin> set l"
proof -
  assume "l \<in> set (map numbered_line (List.enumerate k (split_nl raw)))"
  then obtain i x where "l = numbered_line (i, x)" "x \<in> set (split_nl raw)"
    by (auto simp: in_set_enumerate_eq)
  then show ?thesis using numbered_line_no_newline split_nl_no_newline by blast
qed

lemma split_add_line_numbers:
  "split_nl (add_line_numbers raw) = map numbered_line (List.enumerate 1 (split_nl raw))"
proof -
  let ?NL = "map numbered_line (List.enumerate 1 (split_nl raw))"
  have ne: "?NL \<noteq> []"
    using split_nl_nonempty [of raw] by (cases "split_nl raw") simp_all
  have nn: "\<forall>l \<in> set ?NL. newline \<notin> set l"
    using numbered_lines_no_newline by blast
  show ?thesis unfolding add_line_numbers_def using ne nn by (rule split_join_nl)
qed

lemma strip_join_numbered:
  assumes "ls \<noteq> []"
  shows "strip (join_nl (map numbered_line ls))
       = join_nl (butlast (map numbered_line ls) @ [rstrip (last (map numbered_line ls))])"
proof -
  obtain B p where ls: "ls = B @ [p]" using assms by (cases ls rule: rev_cases) auto
  obtain i l where p: "p = (i, l)" by (cases p)
  let ?N = "join_nl (map numbered_line ls)"
  let ?L = "numbered_line (i, l)"
  have L: "?L = (''['' @ fmt03 i) @ CHR '']'' # ('' '' @ l)" by (simp add: numbered_line_def)
  have rL: "rstrip ?L = (''['' @ fmt03 i) @ CHR '']'' # rstrip ('' '' @ l)"
    unfolding L using bracket_not_space(2) by (rule rstrip_after_nonspace)
  have hdL: "hd (numbered_line q) = CHR ''[''" "numbered_line q \<noteq> []" for q
    by (cases q; simp add: numbered_line_def)+
  have hdN: "?N \<noteq> [] \<and> hd ?N = CHR ''[''"
  proof (cases ls)
    case Nil
    then show ?thesis using assms by simp
  next
    case (Cons q qs)
    then show ?thesis using hdL [of q] by (cases qs) (auto simp: hd_append)
  qed
  then have l1: "lstrip ?N = ?N" using bracket_not_space(1) by (simp add: lstrip_id)
  show ?thesis
  proof (cases "B = []")
    case True
    then show ?thesis using ls p l1 by (simp add: strip_def)
  next
    case False
    let ?P = "join_nl (map numbered_line B)"
    have N: "?N = (?P @ newline # ''['' @ fmt03 i) @ CHR '']'' # ('' '' @ l)"
      using False ls p L by (simp add: join_nl_snoc)
    have "rstrip ?N = (?P @ newline # ''['' @ fmt03 i) @ CHR '']'' # rstrip ('' '' @ l)"
      unfolding N using bracket_not_space(2) by (rule rstrip_after_nonspace)
    also have "\<dots> = ?P @ newline # rstrip ?L" using rL by simp
    also have "\<dots> = join_nl (map numbered_line B @ [rstrip ?L])"
      using False by (simp add: join_nl_snoc)
    finally show ?thesis using ls p l1 by (simp add: strip_def)
  qed
qed

lemma split_strip_add_line_numbers:
  "split_nl (strip (add_line_numbers raw))
     = butlast (map numbered_line (List.enumerate 1 (split_nl raw)))
       @ [rstrip (last (map numbered_line (List.enumerate 1 (split_nl raw))))]"
proof -
  let ?NL = "map numbered_line (List.enumerate 1 (split_nl raw))"
  have ne: "List.enumerate 1 (split_nl raw) \<noteq> []"
    using split_nl_nonempty [of raw] by (cases "split_nl raw") simp_all
  then have NLne: "?NL \<noteq> []" by simp
  have s: "strip (add_line_numbers raw) = join_nl (butlast ?NL @ [rstrip (last ?NL)])"
    unfolding add_line_numbers_def using ne by (rule strip_join_numbered)
  have "\<forall>x \<in> set (butlast ?NL @ [rstrip (last ?NL)]). newline \<notin> set x"
  proof
    fix x assume "x \<in> set (butlast ?NL @ [rstrip (last ?NL)])"
    then consider "x \<in> set (butlast ?NL)" | "x = rstrip (last ?NL)" by auto
    then show "newline \<notin> set x"
    proof cases
      case 1
      then have "x \<in> set ?NL" by (rule in_set_butlastD)
      then show ?thesis by (rule numbered_lines_no_newline)
    next
      case 2
      have "last ?NL \<in> set ?NL" using NLne by (rule last_in_set)
      then have "newline \<notin> set (last ?NL)" by (rule numbered_lines_no_newline)
      then show ?thesis using 2 rstrip_subset [of "last ?NL"] by auto
    qed
  qed
  then show ?thesis unfolding s by (intro split_join_nl) simp_all
qed

text \<open>
  Claim C4. \<open>_add_line_numbers\<close> gives line \<open>k\<close> of the Markdown (counted from 1) the
  prefix \<open>[\<close>, the decimal digits of \<open>k\<close> padded with zeros to at least three, \<open>]\<close> and a
  space: three digits below 1000 and all the digits of \<open>k\<close>, none cut off, from 1000 on.
  Stripping the numbered text only strips the end of its last line, so the
  \<open>markdown_result\<close> of a conversion has exactly as many lines as the Markdown it numbers.
\<close>

theorem numbered_markdown_lines:
  "(\<forall>k < length (split_nl raw).
      split_nl (add_line_numbers raw) ! k = ''['' @ fmt03 (Suc k) @ '']'' @ '' '' @ split_nl raw ! k)
   \<and> length (split_nl (add_line_numbers raw)) = length (split_nl raw)
   \<and> split_nl (strip (add_line_numbers raw))
       = butlast (split_nl (add_line_numbers raw))
         @ [rstrip (last (split_nl (add_line_numbers raw)))]
   \<and> length (split_nl (strip (add_line_numbers raw))) = length (split_nl raw)
   \<and> (\<forall>n. length (fmt03 n) = max 3 (length (dec n))
          \<and> digits_value (fmt03 n) = n
          \<and> (\<forall>c \<in> set (fmt03 n). is_digit c)
          \<and> (n < 1000 \<longleftrightarrow> length (fmt03 n) = 3)
          \<and> (1000 \<le> n \<longrightarrow> fmt03 n = dec n \<and> 10 ^ (length (fmt03 n) - 1) \<le> n))
   \<and> (BeautifulSoup E html_text = Inr parsed
       \<and> str_of_soup E (fst (add_unique_ids E parsed (uuid_calls s))) = Inr html
       \<and> md E html = Inr raw
       \<and> map_of (fst (convert_with_mapping E html_text s)) ''status'' = Some (PyStr ''converted'')
       \<longrightarrow> map_of (fst (convert_with_mapping E html_text s)) ''markdown_result''
             = Some (PyStr (strip (add_line_numbers raw))))"
proof -
  let ?NL = "map numbered_line (List.enumerate 1 (split_nl raw))"
  have sp: "split_nl (add_line_numbers raw) = ?NL" by (rule split_add_line_numbers)
  have a: "\<forall>k < length (split_nl raw).
      split_nl (add_line_numbers raw) ! k = ''['' @ fmt03 (Suc k) @ '']'' @ '' '' @ split_nl raw ! k"
    unfolding sp by (simp add: nth_enumerate_eq numbered_line_def)
  have b: "length (split_nl (add_line_numbers raw)) = length (split_nl raw)"
    unfolding sp by simp
  have c: "split_nl (strip (add_line_numbers raw))
       = butlast (split_nl (add_line_numbers raw))
         @ [rstrip (last (split_nl (add_line_numbers raw)))]"
    unfolding sp by (rule split_strip_add_line_numbers)
  have ne: "split_nl (add_line_numbers raw) \<noteq> []" by (rule split_nl_nonempty)
  have d: "length (split_nl (strip (add_line_numbers raw))) = length (split_nl raw)"
  proof -
    have "length (split_nl (strip (add_line_numbers raw)))
        = Suc (length (split_nl (add_line_numbers raw)) - 1)"
      unfolding c by simp
    also have "\<dots> = length (split_nl (add_line_numbers raw))"
      using ne by (cases "split_nl (add_line_numbers raw)") simp_all
    finally show ?thesis using b by simp
  qed
  have e: "length (fmt03 n) = max 3 (length (dec n))
          \<and> digits_value (fmt03 n) = n
          \<and> (\<forall>c \<in> set (fmt03 n). is_digit c)
          \<and> (n < 1000 \<longleftrightarrow> length (fmt03 n) = 3)
          \<and> (1000 \<le> n \<longrightarrow> fmt03 n = dec n \<and> 10 ^ (length (fmt03 n) - 1) \<le> n)" for n
  proof (intro conjI impI)
    show "length (fmt03 n) = max 3 (length (dec n))" by (rule fmt03_length)
    show "digits_value (fmt03 n) = n" by (rule digits_value_fmt03)
    show "\<forall>c \<in> set (fmt03 n). is_digit c" using fmt03_digits by blast
    show "(n < 1000) = (length (fmt03 n) = 3)"
      using length_dec_le3 [of n] by (auto simp: fmt03_length)
  next
    assume big: "1000 \<le> n"
    then show "fmt03 n = dec n" by (rule fmt03_large)
    then show "10 ^ (length (fmt03 n) - 1) \<le> n"
      using length_dec_bounds [of n] big by simp
  qed
  have f: "BeautifulSoup E html_text = Inr parsed
       \<and> str_of_soup E (fst (add_unique_ids E parsed (uuid_calls s))) = Inr html
       \<and> md E html = Inr raw
       \<and> map_of (fst (convert_with_mapping E html_text s)) ''status'' = Some (PyStr ''converted'')
       \<longrightarrow> map_of (fst (convert_with_mapping E html_text s)) ''markdown_result''
             = Some (PyStr (strip (add_line_numbers raw)))"
    by (auto simp: convert_fst error_result_def split: option.splits)
  show ?thesis using a b c d e f by blast
qed

theorem numbered_markdown_lines_witness:
  "length (split_nl demo_raw) = 5
   \<and> length (split_nl (strip (add_line_numbers demo_raw))) = 5
   \<and> split_nl (add_line_numbers demo_raw) ! 2 = ''[003] Hello **world**''
   \<and> fmt03 1234 = dec 1234
   \<and> dec 1234 = ''1234''
   \<and> map_of (fst (convert_with_mapping demo_env demo_doc (init 0))) ''markdown_result''
       = Some (PyStr (strip (add_line_numbers demo_raw)))"
proof -
  note t = numbered_markdown_lines [of demo_raw demo_env demo_doc demo_parsed "init 0" demo_html]
  have len: "length (split_nl demo_raw) = 5" by code_simp
  have l2: "split_nl demo_raw ! 2 = ''Hello **world**''" by code_simp
  have f3: "fmt03 (Suc 2) = ''003''" by code_simp
  have d4: "dec 1234 = ''1234''" by code_simp
  have h1: "BeautifulSoup demo_env demo_doc = Inr demo_parsed" by code_simp
  have h2: "str_of_soup demo_env (fst (add_unique_ids demo_env demo_parsed (uuid_calls (init 0))))
       = Inr demo_html" by code_simp
  have h3: "md demo_env demo_html = Inr demo_raw" by code_simp
  have h4: "map_of (fst (convert_with_mapping demo_env demo_doc (init 0))) ''status''
       = Some (PyStr ''converted'')" by code_simp
  from t have t1: "\<forall>k < length (split_nl demo_raw).
      split_nl (add_line_numbers demo_raw) ! k
        = ''['' @ fmt03 (Suc k) @ '']'' @ '' '' @ split_nl demo_raw ! k" by (rule conjunct1)
  have "(2::nat) < length (split_nl demo_raw)" using len by simp
  with t1 have a: "split_nl (add_line_numbers demo_raw) ! 2
        = ''['' @ fmt03 (Suc 2) @ '']'' @ '' '' @ split_nl demo_raw ! 2" by blast
  have a': "split_nl (add_line_numbers demo_raw) ! 2 = ''[003] Hello **world**''"
    unfolding a l2 f3 by simp
  from t have b: "length (split_nl (strip (add_line_numbers demo_raw))) = length (split_nl demo_raw)"
    by (elim conjE)
  from t have "1000 \<le> (1234::nat) \<longrightarrow> fmt03 1234 = dec 1234 \<and> 10 ^ (length (fmt03 1234) - 1) \<le> (1234::nat)"
    by (elim conjE) blast
  then have c: "fmt03 1234 = dec 1234" by simp
  from t h1 h2 h3 h4 have d: "map_of (fst (convert_with_mapping demo_env demo_doc (init 0))) ''markdown_result''
       = Some (PyStr (strip (add_line_numbers demo_raw)))" by (elim conjE) blast
  show ?thesis using len a' b c d4 d by simp
qed

end
